theory Spec2Isabelle
  imports Complex_Main
begin

section \<open>Data model\<close>

text \<open>
  The two functions of \<^verbatim>\<open>dipy/reconst/utils.py\<close> that the specification covers,
  \<^verbatim>\<open>probabilistic_least_squares\<close> and \<^verbatim>\<open>sample_coef_posterior\<close>, are embedded
  as HOL functions over exact real arithmetic: a finite double is a \<^typ>\<open>real\<close> and
  rounding is not modelled. What numpy does where the reals have no answer is written
  out: a division by zero yields an infinity or a NaN (type \<open>fval\<close>), and every exception
  is a value of type \<open>error\<close>. Infinite or NaN \<^emph>\<open>inputs\<close> are outside this embedding.
\<close>

datatype linalg_msg =
    Singular_matrix
  | Matrix_is_not_positive_definite
  | Last_2_dimensions_must_be_square

datatype error = LinAlgError linalg_msg | ValueError

text \<open>The value of a floating-point division: finite, or one of the IEEE specials.\<close>

datatype fval = Fin real | PosInf | NegInf | NaN

text \<open>
  A numpy array: its shape and its elements in row-major (C) order. A well-formed array
  has as many elements as its shape says.
\<close>

record 'a ndarray =
  shape :: "nat list"
  data :: "'a list"

definition wf_ndarray :: "'a ndarray \<Rightarrow> bool" where
  "wf_ndarray a = (length (data a) = prod_list (shape a))"

text \<open>
  A two-dimensional array, kept as its list of rows; the design matrix, the
  regularization matrix and every intermediate matrix have this type.
\<close>

record matrix =
  nrows :: nat
  ncols :: nat
  rows :: "real list list"

definition wf_matrix :: "matrix \<Rightarrow> bool" where
  "wf_matrix a = (length (rows a) = nrows a \<and> (\<forall>r \<in> set (rows a). length r = ncols a))"

subsection \<open>Array functions of numpy\<close>

definition chunks :: "nat \<Rightarrow> nat \<Rightarrow> 'a list \<Rightarrow> 'a list list" where
  \<comment> \<open>the first \<open>k\<close> consecutive blocks of \<open>m\<close> elements\<close>
  "chunks k m xs = map (\<lambda>i. take m (drop (i * m) xs)) [0..<k]"

definition atleast_2d :: "'a ndarray \<Rightarrow> 'a ndarray" where
  "atleast_2d a =
     (case shape a of
        [] \<Rightarrow> a\<lparr>shape := [1, 1]\<rparr>
      | [n] \<Rightarrow> a\<lparr>shape := [1, n]\<rparr>
      | _ \<Rightarrow> a)"

definition squeeze :: "'a ndarray \<Rightarrow> 'a ndarray" where
  "squeeze a = a\<lparr>shape := filter (\<lambda>d. d \<noteq> 1) (shape a)\<rparr>"

definition reshape :: "'a ndarray \<Rightarrow> nat list \<Rightarrow> error + 'a ndarray" where
  "reshape a new_shape =
     (if prod_list new_shape = length (data a) then Inr (a\<lparr>shape := new_shape\<rparr>)
      else Inl ValueError)"

definition zeros :: "nat list \<Rightarrow> real ndarray" where
  "zeros shp = \<lparr>shape = shp, data = replicate (prod_list shp) 0\<rparr>"

text \<open>Broadcasting: shapes are aligned at their last axis; an axis of length 1 stretches.\<close>

fun broadcast_rev :: "nat list \<Rightarrow> nat list \<Rightarrow> nat list option" where
  "broadcast_rev [] ys = Some ys"
| "broadcast_rev (x # xs) [] = Some (x # xs)"
| "broadcast_rev (x # xs) (y # ys) =
     (if x = y \<or> y = 1 then map_option ((#) x) (broadcast_rev xs ys)
      else if x = 1 then map_option ((#) y) (broadcast_rev xs ys)
      else None)"

definition broadcast_shapes :: "nat list \<Rightarrow> nat list \<Rightarrow> nat list option" where
  "broadcast_shapes s t = map_option rev (broadcast_rev (rev s) (rev t))"

fun tile :: "nat list \<Rightarrow> nat list \<Rightarrow> 'a list \<Rightarrow> 'a list" where
  "tile (s # ss) (t # ts) d =
     (if s = t then concat (map (tile ss ts) (chunks s (prod_list ss) d))
      else concat (replicate t (tile ss ts d)))"
| "tile _ _ d = d"

definition broadcast_to :: "'a ndarray \<Rightarrow> nat list \<Rightarrow> 'a list" where
  "broadcast_to a t = tile (replicate (length t - length (shape a)) 1 @ shape a) t (data a)"

definition broadcast_op ::
  "('a \<Rightarrow> 'b \<Rightarrow> 'c) \<Rightarrow> 'a ndarray \<Rightarrow> 'b ndarray \<Rightarrow> error + 'c ndarray" where
  "broadcast_op f a b =
     (case broadcast_shapes (shape a) (shape b) of
        None \<Rightarrow> Inl ValueError
      | Some t \<Rightarrow> Inr \<lparr>shape = t, data = map2 f (broadcast_to a t) (broadcast_to b t)\<rparr>)"

text \<open>Division of doubles: a zero divisor gives an infinity or NaN, not an exception.\<close>

definition fdiv :: "real \<Rightarrow> real \<Rightarrow> fval" where
  "fdiv a b =
     (if b \<noteq> 0 then Fin (a / b)
      else if 0 < a then PosInf else if a < 0 then NegInf else NaN)"

fun fdivv :: "real \<Rightarrow> fval \<Rightarrow> fval" where
  "fdivv a (Fin b) = fdiv a b"
| "fdivv a PosInf = Fin 0"
| "fdivv a NegInf = Fin 0"
| "fdivv a NaN = NaN"

section \<open>Linear algebra\<close>

definition dot :: "real list \<Rightarrow> real list \<Rightarrow> real" where
  "dot u v = sum_list (map2 (*) u v)"

definition vsub :: "real list \<Rightarrow> real list \<Rightarrow> real list" where
  "vsub u v = map2 (-) u v"

definition smult :: "real \<Rightarrow> real list \<Rightarrow> real list" where
  "smult c v = map ((*) c) v"

definition col :: "real list list \<Rightarrow> nat \<Rightarrow> real list" where
  "col X j = map (\<lambda>r. r ! j) X"

definition lincomb :: "nat \<Rightarrow> real list \<Rightarrow> real list list \<Rightarrow> real list" where
  \<comment> \<open>the row vector \<open>r\<close> times the matrix with rows \<open>X\<close>, each of length \<open>m\<close>\<close>
  "lincomb m r X = map (\<lambda>j. dot r (col X j)) [0..<m]"

definition swapaxes :: "matrix \<Rightarrow> matrix" where
  \<comment> \<open>\<^verbatim>\<open>np.swapaxes(a, -1, -2)\<close> of a two-dimensional array: the transpose\<close>
  "swapaxes a = \<lparr>nrows = ncols a, ncols = nrows a, rows = map (col (rows a)) [0..<ncols a]\<rparr>"

definition eye :: "nat \<Rightarrow> matrix" where
  "eye n = \<lparr>nrows = n, ncols = n,
            rows = map (\<lambda>i. map (\<lambda>j. if i = j then 1 else 0) [0..<n]) [0..<n]\<rparr>"

definition einsum_ki_kj_ij :: "matrix \<Rightarrow> matrix \<Rightarrow> matrix" where
  \<comment> \<open>\<^verbatim>\<open>np.einsum('...ki, ...kj->...ij', a, b)\<close> of two-dimensional arrays with
      the same number of rows\<close>
  "einsum_ki_kj_ij a b =
     \<lparr>nrows = ncols a, ncols = ncols b,
      rows = map (\<lambda>i. map (\<lambda>j. dot (col (rows a) i) (col (rows b) j)) [0..<ncols b])
               [0..<ncols a]\<rparr>"

definition einsum_ik_kj_ij :: "matrix \<Rightarrow> matrix \<Rightarrow> matrix" where
  \<comment> \<open>\<^verbatim>\<open>np.einsum('...ik, ...kj->...ij', a, b)\<close>: the matrix product\<close>
  "einsum_ik_kj_ij a b =
     \<lparr>nrows = nrows a, ncols = ncols b,
      rows = map (\<lambda>r. lincomb (ncols b) r (rows b)) (rows a)\<rparr>"

definition stretch :: "nat \<Rightarrow> real list \<Rightarrow> real list" where
  \<comment> \<open>an axis of length 1 is repeated to the common length\<close>
  "stretch n xs = (if length xs = n then xs else replicate n (hd xs))"

definition einsum_ij_j_i :: "matrix \<Rightarrow> real ndarray \<Rightarrow> error + real ndarray" where
  \<comment> \<open>\<^verbatim>\<open>np.einsum('...ij, ...j->...i', a, y)\<close>: the matrix applied to every vector
      along the last axis of \<open>y\<close>. The summed axis must have the same length in both
      operands, unless one of the two is 1 (einsum broadcasts it).\<close>
  "einsum_ij_j_i a y =
     (case shape y of
        [] \<Rightarrow> Inl ValueError
      | _ \<Rightarrow>
         (let k = last (shape y); batch = butlast (shape y); n = ncols a
          in if k \<noteq> n \<and> k \<noteq> 1 \<and> n \<noteq> 1 then Inl ValueError
             else Inr \<lparr>shape = batch @ [nrows a],
                       data = concat (map (\<lambda>u. map (\<lambda>r. dot (stretch (max k n) r)
                                                              (stretch (max k n) u)) (rows a))
                                        (chunks (prod_list batch) k (data y)))\<rparr>))"

subsection \<open>\<^verbatim>\<open>np.linalg.solve\<close>\<close>

text \<open>
  numpy hands the system to LAPACK's \<^verbatim>\<open>gesv\<close>: Gaussian elimination with partial
  pivoting (in each column the row with the entry of largest magnitude, the first of
  them, becomes the pivot row), all right-hand sides carried along; a column with no
  non-zero pivot raises \<^verbatim>\<open>LinAlgError("Singular matrix")\<close>. The elimination is
  written here over the list of equations, each a row of coefficients with its row of
  right-hand sides.

  The pivot is computed and compared with zero exactly. LAPACK compares the rounded
  pivot, which for a singular matrix is in general a small non-zero number: whether a
  singular system raises is a property of the rounding, and nothing is stated about it
  below. The function is used for systems that have a unique solution.
\<close>

fun idamax :: "real list \<Rightarrow> nat" where
  "idamax [] = 0"
| "idamax [x] = 0"
| "idamax (x # y # ys) =
     (let k = idamax (y # ys) in if \<bar>(y # ys) ! k\<bar> \<le> \<bar>x\<bar> then 0 else Suc k)"

fun gesv :: "nat \<Rightarrow> (real list \<times> real list) list \<Rightarrow> real list list option" where
  "gesv 0 eqs = Some []"
| "gesv (Suc n) eqs =
     (let k = idamax (map (hd \<circ> fst) eqs);
          eqs' = eqs[0 := eqs ! k, k := eqs ! 0];
          pr = fst (hd eqs'); pb = snd (hd eqs'); p = hd pr
      in if p = 0 then None
         else case gesv n (map (\<lambda>(r, b). (vsub (tl r) (smult (hd r / p) (tl pr)),
                                           vsub b (smult (hd r / p) pb))) (tl eqs')) of
                None \<Rightarrow> None
              | Some X \<Rightarrow>
                  Some (smult (1 / p) (vsub pb (lincomb (length pb) (tl pr) X)) # X))"

definition solve :: "matrix \<Rightarrow> matrix \<Rightarrow> error + matrix" where
  "solve a b =
     (if nrows a \<noteq> ncols a then Inl (LinAlgError Last_2_dimensions_must_be_square)
      else if nrows b \<noteq> nrows a then Inl ValueError
      else case gesv (nrows a) (zip (rows a) (rows b)) of
             None \<Rightarrow> Inl (LinAlgError Singular_matrix)
           | Some X \<Rightarrow> Inr \<lparr>nrows = nrows a, ncols = ncols b, rows = X\<rparr>)"

subsection \<open>\<^verbatim>\<open>np.linalg.cholesky\<close>\<close>

text \<open>
  LAPACK's \<^verbatim>\<open>potrf\<close> (lower factor): row \<open>i\<close> of the factor is found from the rows
  before it and from the entries of row \<open>i\<close> of the matrix up to the diagonal; only
  that lower triangle is read. A pivot that is not positive raises
  \<^verbatim>\<open>LinAlgError("Matrix is not positive definite")\<close>.

  The pivot, a diagonal entry less a sum of squares, is computed and compared with zero
  exactly. LAPACK compares the rounded pivot, and the two agree on a failure wherever the
  diagonal entry itself is not positive, since subtracting squares and rounding cannot
  make it positive; for a matrix on the border of positive-definiteness the rounded pivot
  may fall on either side.
\<close>

fun chol_row :: "real list list \<Rightarrow> real list \<Rightarrow> nat \<Rightarrow> real list" where
  "chol_row L a 0 = []"
| "chol_row L a (Suc j) =
     (let x = chol_row L a j in x @ [(a ! j - dot (L ! j) x) / (L ! j ! j)])"

fun potrf :: "real list list \<Rightarrow> nat \<Rightarrow> nat \<Rightarrow> real list list option" where
  "potrf A n 0 = Some []"
| "potrf A n (Suc i) =
     (case potrf A n i of
        None \<Rightarrow> None
      | Some L \<Rightarrow>
         (let x = chol_row L (A ! i) i; d = A ! i ! i - dot x x
          in if d \<le> 0 then None
             else Some (L @ [x @ [sqrt d] @ replicate (n - Suc i) 0])))"

definition cholesky :: "matrix \<Rightarrow> error + matrix" where
  "cholesky a =
     (if nrows a \<noteq> ncols a then Inl (LinAlgError Last_2_dimensions_must_be_square)
      else case potrf (rows a) (nrows a) (nrows a) of
             None \<Rightarrow> Inl (LinAlgError Matrix_is_not_positive_definite)
           | Some L \<Rightarrow> Inr \<lparr>nrows = nrows a, ncols = nrows a, rows = L\<rparr>)"

section \<open>The two functions\<close>

definition and_then :: "error + 'a \<Rightarrow> ('a \<Rightarrow> error + 'b) \<Rightarrow> error + 'b" where
  \<comment> \<open>an exception ends the call; otherwise the next statement runs\<close>
  "and_then r f = (case r of Inl e \<Rightarrow> Inl e | Inr x \<Rightarrow> f x)"

definition as_ndarray :: "matrix \<Rightarrow> real ndarray" where
  "as_ndarray a = \<lparr>shape = [nrows a, ncols a], data = concat (rows a)\<rparr>"

definition as_matrix :: "real ndarray \<Rightarrow> matrix" where
  \<comment> \<open>for a two-dimensional array\<close>
  "as_matrix a =
     \<lparr>nrows = hd (shape a), ncols = last (shape a),
      rows = chunks (hd (shape a)) (last (shape a)) (data a)\<rparr>"

definition madd :: "matrix \<Rightarrow> matrix \<Rightarrow> error + matrix" where
  \<comment> \<open>\<open>a + b\<close> of two-dimensional arrays, with numpy's broadcasting\<close>
  "madd a b = and_then (broadcast_op (+) (as_ndarray a) (as_ndarray b)) (\<lambda>c. Inr (as_matrix c))"

definition msub :: "matrix \<Rightarrow> matrix \<Rightarrow> matrix" where
  \<comment> \<open>\<open>a - b\<close> of two arrays of the same shape\<close>
  "msub a b = \<lparr>nrows = nrows a, ncols = ncols a, rows = map2 vsub (rows a) (rows b)\<rparr>"

definition sum_sq_last_axis :: "real ndarray \<Rightarrow> real ndarray" where
  \<comment> \<open>\<^verbatim>\<open>np.sum(a ** 2, axis=-1)\<close> of an array with at least one axis\<close>
  "sum_sq_last_axis a =
     \<lparr>shape = butlast (shape a),
      data = map (\<lambda>u. sum_list (map (\<lambda>x. x ^ 2) u))
               (chunks (prod_list (butlast (shape a))) (last (shape a)) (data a))\<rparr>"

definition sum_sq_matrix :: "matrix \<Rightarrow> real" where
  \<comment> \<open>\<^verbatim>\<open>np.sum(a ** 2, axis=(-1, -2))\<close> of a two-dimensional array\<close>
  "sum_sq_matrix a = sum_list (map (\<lambda>x. x ^ 2) (concat (rows a)))"

record pls_result =
  coef_posterior_mean :: "real ndarray"
  residual_variance :: "fval ndarray"
  coef_posterior_precision :: "fval ndarray option"
    \<comment> \<open>present exactly when \<^verbatim>\<open>return_posterior_precision\<close> is true\<close>

definition probabilistic_least_squares ::
  "matrix \<Rightarrow> real ndarray \<Rightarrow> matrix option \<Rightarrow> bool \<Rightarrow> error + pls_result" where
  "probabilistic_least_squares design_matrix y regularization_matrix return_posterior_precision =
     and_then
       (case regularization_matrix of
          None \<Rightarrow> Inr (einsum_ki_kj_ij design_matrix design_matrix)
        | Some R \<Rightarrow> madd (einsum_ki_kj_ij design_matrix design_matrix) R)
       (\<lambda>unscaled_posterior_precision.
     and_then (solve unscaled_posterior_precision (swapaxes design_matrix)) (\<lambda>pseudoInv.
     and_then (einsum_ij_j_i pseudoInv y) (\<lambda>coef_posterior_mean.
     let smoother_matrix = einsum_ik_kj_ij design_matrix pseudoInv;
         residual_matrix = msub (eye (ncols smoother_matrix)) smoother_matrix
     in
     and_then (einsum_ij_j_i design_matrix coef_posterior_mean) (\<lambda>fitted.
     and_then (broadcast_op (-) y fitted) (\<lambda>residuals.
     let residual_variance =
           \<lparr>shape = shape (sum_sq_last_axis residuals),
            data = map (\<lambda>s. fdiv s (sum_sq_matrix residual_matrix))
                     (data (sum_sq_last_axis residuals))\<rparr>
     in
     if \<not> return_posterior_precision then
       Inr \<lparr>coef_posterior_mean = coef_posterior_mean,
            residual_variance = residual_variance,
            coef_posterior_precision = None\<rparr>
     else
       (let coef_posterior_mean = atleast_2d coef_posterior_mean in
        case shape coef_posterior_mean of
          [n_voxels, n_coefs] \<Rightarrow>
            and_then (broadcast_op fdivv (as_ndarray unscaled_posterior_precision)
                        residual_variance) (\<lambda>coef_posterior_precision.
            and_then (reshape coef_posterior_precision [n_voxels, n_coefs, n_coefs])
              (\<lambda>coef_posterior_precision.
            Inr \<lparr>coef_posterior_mean = squeeze coef_posterior_mean,
                 residual_variance = residual_variance,
                 coef_posterior_precision = Some (squeeze coef_posterior_precision)\<rparr>))
        | _ \<Rightarrow> Inl ValueError))))))"

text \<open>
  \<^verbatim>\<open>np.random.randn\<close> draws from the process-wide generator. The generator is the
  stream of standard-normal numbers it will still hand out; a call takes the first
  \<open>n_coefs * n_samples\<close> of them and leaves the rest.
\<close>

type_synonym rng = "nat \<Rightarrow> real"

definition randn :: "nat \<Rightarrow> nat \<Rightarrow> rng \<Rightarrow> matrix \<times> rng" where
  "randn d0 d1 g =
     (\<lparr>nrows = d0, ncols = d1, rows = chunks d0 d1 (map g [0..<d0 * d1])\<rparr>,
      \<lambda>k. g (k + d0 * d1))"

definition getitem_unit_matrix :: "real ndarray \<Rightarrow> nat \<Rightarrow> matrix" where
  \<comment> \<open>\<^verbatim>\<open>a[i, :, :]\<close> of a three-dimensional array\<close>
  "getitem_unit_matrix a i =
     (let r = shape a ! 1; c = shape a ! 2
      in \<lparr>nrows = r, ncols = c, rows = chunks r c (drop (i * (r * c)) (data a))\<rparr>)"

definition getitem_unit_vector :: "real ndarray \<Rightarrow> nat \<Rightarrow> real list" where
  \<comment> \<open>\<^verbatim>\<open>a[i, :]\<close> of a two-dimensional array\<close>
  "getitem_unit_vector a i = take (shape a ! 1) (drop (i * (shape a ! 1)) (data a))"

definition setitem_unit_matrix :: "real ndarray \<Rightarrow> nat \<Rightarrow> matrix \<Rightarrow> real ndarray" where
  \<comment> \<open>\<^verbatim>\<open>a[i, :, :] = b\<close> for \<open>b\<close> of the shape of one unit of \<open>a\<close>\<close>
  "setitem_unit_matrix a i b =
     (let sz = (shape a ! 1) * (shape a ! 2)
      in a\<lparr>data := take (i * sz) (data a) @ concat (rows b) @ drop (Suc i * sz) (data a)\<rparr>)"

definition add_column :: "real list \<Rightarrow> matrix \<Rightarrow> matrix" where
  \<comment> \<open>\<^verbatim>\<open>v[:, None] + b\<close>: entry \<open>j\<close> of \<open>v\<close> is added along row \<open>j\<close> of \<open>b\<close>\<close>
  "add_column v b = b\<lparr>rows := map2 (\<lambda>x r. map ((+) x) r) v (rows b)\<rparr>"

fun sample_loop ::
  "real ndarray \<Rightarrow> real ndarray \<Rightarrow> nat \<Rightarrow> nat \<Rightarrow> nat list \<Rightarrow> real ndarray \<Rightarrow> rng
     \<Rightarrow> (error + real ndarray) \<times> rng" where
  "sample_loop mean precision n_coefs n_samples [] samples g = (Inr samples, g)"
| "sample_loop mean precision n_coefs n_samples (i # is) samples g =
     (let (standard_normal_samples, g') = randn n_coefs n_samples g
      in case cholesky (getitem_unit_matrix precision i) of
           Inl e \<Rightarrow> (Inl e, g')
         | Inr L \<Rightarrow>
            (case solve L standard_normal_samples of
               Inl e \<Rightarrow> (Inl e, g')
             | Inr S \<Rightarrow>
                 sample_loop mean precision n_coefs n_samples is
                   (setitem_unit_matrix samples i (add_column (getitem_unit_vector mean i) S))
                   g'))"

definition sample_coef_posterior ::
  "real ndarray \<Rightarrow> real ndarray \<Rightarrow> int \<Rightarrow> rng \<Rightarrow> (error + real ndarray) \<times> rng" where
  "sample_coef_posterior mean precision n_samples g =
     (let mean = atleast_2d mean in
      case shape mean of
        [n_voxels, n_coefs] \<Rightarrow>
          (case reshape precision [n_voxels, n_coefs, n_coefs] of
             Inl e \<Rightarrow> (Inl e, g)
           | Inr precision \<Rightarrow>
               if n_samples < 0 then (Inl ValueError, g)
               else
                 (case sample_loop mean precision n_coefs (nat n_samples) [0..<n_voxels]
                         (zeros [n_voxels, n_coefs, nat n_samples]) g of
                    (Inl e, g') \<Rightarrow> (Inl e, g')
                  | (Inr samples, g') \<Rightarrow> (Inr (squeeze samples), g')))
      | _ \<Rightarrow> (Inl ValueError, g))"

subsection \<open>Concrete inputs\<close>

definition zero_rng :: rng where
  \<comment> \<open>a generator whose every draw is 0\<close>
  "zero_rng = (\<lambda>k. 0)"

definition identity_precision_2 :: "real ndarray" where
  "identity_precision_2 = \<lparr>shape = [2, 2], data = [1, 0, 0, 1]\<rparr>"

definition zero_mean_2 :: "real ndarray" where
  "zero_mean_2 = \<lparr>shape = [2], data = [0, 0]\<rparr>"

definition design_3x2 :: matrix where
  \<comment> \<open>the design of the repository's regression test: \<open>y = c1 + c2 * x\<close> at \<open>x = 0, 1, 2\<close>\<close>
  "design_3x2 = \<lparr>nrows = 3, ncols = 2, rows = [[1, 0], [1, 1], [1, 2]]\<rparr>"

definition y_two_units :: "real ndarray" where
  \<comment> \<open>a batch of two observation vectors\<close>
  "y_two_units = \<lparr>shape = [2, 3], data = [1, 3, 6, 1, 2, 5]\<rparr>"

definition precision_1112 :: "real ndarray" where
  \<comment> \<open>the symmetric positive-definite matrix \<open>[[1, 1], [1, 2]]\<close>\<close>
  "precision_1112 = \<lparr>shape = [2, 2], data = [1, 1, 1, 2]\<rparr>"

definition identity_draws_2 :: rng where
  \<comment> \<open>a generator whose first four draws form the 2 by 2 identity matrix\<close>
  "identity_draws_2 = (\<lambda>k. if k = 0 \<or> k = 3 then 1 else 0)"

definition matvec :: "real list list \<Rightarrow> real list \<Rightarrow> real list" where
  "matvec X v = map (\<lambda>r. dot r v) X"

definition eqs_ok :: "nat \<Rightarrow> nat \<Rightarrow> (real list \<times> real list) list \<Rightarrow> bool" where
  "eqs_ok n m eqs = (length eqs = n \<and> (\<forall>e \<in> set eqs. length (fst e) = n \<and> length (snd e) = m))"

definition in_kernel :: "matrix \<Rightarrow> real list \<Rightarrow> bool" where
  "in_kernel a v = (length v = ncols a \<and> (\<forall>r \<in> set (rows a). dot r v = 0))"

definition full_column_rank :: "matrix \<Rightarrow> bool" where
  "full_column_rank a = (\<forall>v. in_kernel a v \<longrightarrow> v = replicate (ncols a) 0)"


definition chol_inv :: "real list list \<Rightarrow> nat \<Rightarrow> nat \<Rightarrow> real list list \<Rightarrow> bool" where
  \<comment> \<open>what the first \<open>i\<close> rows \<open>L\<close> of a Cholesky factor of \<open>A\<close> satisfy\<close>
  "chol_inv A n i L =
     (length L = i \<and> (\<forall>r < i. length (L ! r) = n) \<and>
      (\<forall>r < i. \<forall>c < n. r < c \<longrightarrow> L ! r ! c = 0) \<and>
      (\<forall>r < i. 0 < L ! r ! r) \<and>
      (\<forall>r < i. \<forall>c \<le> r. dot (L ! r) (L ! c) = A ! r ! c))"

definition symmetric :: "matrix \<Rightarrow> bool" where
  "symmetric a = (\<forall>i < nrows a. \<forall>j < nrows a. rows a ! i ! j = rows a ! j ! i)"

definition positive_definite :: "matrix \<Rightarrow> bool" where
  \<comment> \<open>the quadratic form of the matrix is positive at every non-zero vector\<close>
  "positive_definite a =
     (\<forall>v. length v = nrows a \<longrightarrow> v \<noteq> replicate (nrows a) 0 \<longrightarrow> 0 < dot v (matvec (rows a) v))"



definition mean_1 :: "real ndarray" where
  \<comment> \<open>a mean of a single coefficient\<close>
  "mean_1 = \<lparr>shape = [1], data = [0]\<rparr>"

definition precision_1 :: "real ndarray" where
  \<comment> \<open>the 1 by 1 precision \<open>[[1]]\<close>\<close>
  "precision_1 = \<lparr>shape = [1, 1], data = [1]\<rparr>"

definition batch_of_one :: "'a ndarray \<Rightarrow> 'a ndarray" where
  \<comment> \<open>\<^verbatim>\<open>a[None]\<close>: the same elements as a batch of one unit\<close>
  "batch_of_one a = a\<lparr>shape := 1 # shape a\<rparr>"

definition squeeze_result :: "pls_result \<Rightarrow> pls_result" where
  \<comment> \<open>every returned array, squeezed\<close>
  "squeeze_result r =
     \<lparr>coef_posterior_mean = squeeze (coef_posterior_mean r),
      residual_variance = squeeze (residual_variance r),
      coef_posterior_precision = map_option squeeze (coef_posterior_precision r)\<rparr>"

definition add_batch_axis :: "bool \<Rightarrow> pls_result \<Rightarrow> pls_result" where
  \<comment> \<open>the result of a batch-of-one call, from the result of the single-unit call: the
      residual variance gets a batch axis, and so does the mean unless the posterior
      precision was requested\<close>
  "add_batch_axis return_posterior_precision r =
     (if return_posterior_precision
      then r\<lparr>residual_variance := batch_of_one (residual_variance r)\<rparr>
      else r\<lparr>coef_posterior_mean := batch_of_one (coef_posterior_mean r),
             residual_variance := batch_of_one (residual_variance r)\<rparr>)"

definition y_136 :: "real ndarray" where
  \<comment> \<open>one observation vector for the 3 by 2 design\<close>
  "y_136 = \<lparr>shape = [3], data = [1, 3, 6]\<rparr>"

section \<open>The two functions over a store\<close>

text \<open>
  Whether a call changes its arguments depends on which arrays share memory, so the
  arrays are placed in a store: a buffer per allocation, and an array is a reference to
  a buffer together with a shape. \<^verbatim>\<open>np.atleast_2d\<close> and \<^verbatim>\<open>reshape\<close> return views (the same
  buffer under another shape), \<^verbatim>\<open>np.zeros\<close> allocates a buffer, and the assignment
  \<^verbatim>\<open>samples[i, :, :] = ...\<close> of \<^verbatim>\<open>sample_coef_posterior\<close> is the only write of the two
  functions. Every other operation (\<^verbatim>\<open>einsum\<close>, \<^verbatim>\<open>+\<close>, \<^verbatim>\<open>-\<close>, \<^verbatim>\<open>/\<close>, \<^verbatim>\<open>solve\<close>, \<^verbatim>\<open>cholesky\<close>,
  \<^verbatim>\<open>randn\<close>, indexing on the right of an assignment) reads its operands and returns a
  new array, so \<^verbatim>\<open>probabilistic_least_squares\<close>, which contains no assignment to an
  array element, passes the store on as it received it.
\<close>

type_synonym heap = "real list list"

record array_ref =
  buf :: nat
  shp :: "nat list"

definition read_array :: "heap \<Rightarrow> array_ref \<Rightarrow> real ndarray" where
  "read_array h r = \<lparr>shape = shp r, data = h ! buf r\<rparr>"

definition read_result :: "heap \<Rightarrow> error + array_ref \<Rightarrow> error + real ndarray" where
  "read_result h res = (case res of Inl e \<Rightarrow> Inl e | Inr r \<Rightarrow> Inr (read_array h r))"

definition np_zeros :: "heap \<Rightarrow> nat list \<Rightarrow> heap \<times> array_ref" where
  \<comment> \<open>\<^verbatim>\<open>np.zeros(shape)\<close> allocates a new buffer\<close>
  "np_zeros h s = (h @ [replicate (prod_list s) 0], \<lparr>buf = length h, shp = s\<rparr>)"

definition setitem_unit_matrix_heap :: "heap \<Rightarrow> array_ref \<Rightarrow> nat \<Rightarrow> matrix \<Rightarrow> heap" where
  \<comment> \<open>\<^verbatim>\<open>a[i, :, :] = b\<close> writes into the buffer of \<open>a\<close>\<close>
  "setitem_unit_matrix_heap h r i b =
     h[buf r := data (setitem_unit_matrix (read_array h r) i b)]"

fun sample_loop_heap ::
  "array_ref \<Rightarrow> array_ref \<Rightarrow> nat \<Rightarrow> nat \<Rightarrow> nat list \<Rightarrow> array_ref \<Rightarrow> heap \<Rightarrow> rng
     \<Rightarrow> (error + array_ref) \<times> heap \<times> rng" where
  "sample_loop_heap mean precision n_coefs n_samples [] samples h g = (Inr samples, h, g)"
| "sample_loop_heap mean precision n_coefs n_samples (i # is) samples h g =
     (let (standard_normal_samples, g') = randn n_coefs n_samples g
      in case cholesky (getitem_unit_matrix (read_array h precision) i) of
           Inl e \<Rightarrow> (Inl e, h, g')
         | Inr L \<Rightarrow>
            (case solve L standard_normal_samples of
               Inl e \<Rightarrow> (Inl e, h, g')
             | Inr S \<Rightarrow>
                 sample_loop_heap mean precision n_coefs n_samples is samples
                   (setitem_unit_matrix_heap h samples i
                      (add_column (getitem_unit_vector (read_array h mean) i) S))
                   g'))"

definition sample_coef_posterior_heap ::
  "heap \<Rightarrow> array_ref \<Rightarrow> array_ref \<Rightarrow> int \<Rightarrow> rng \<Rightarrow> (error + real ndarray) \<times> heap \<times> rng" where
  "sample_coef_posterior_heap h mean precision n_samples g =
     (let mean = mean\<lparr>shp := shape (atleast_2d (read_array h mean))\<rparr> in
      case shp mean of
        [n_voxels, n_coefs] \<Rightarrow>
          (case reshape (read_array h precision) [n_voxels, n_coefs, n_coefs] of
             Inl e \<Rightarrow> (Inl e, h, g)
           | Inr _ \<Rightarrow>
               (let precision = precision\<lparr>shp := [n_voxels, n_coefs, n_coefs]\<rparr> in
                if n_samples < 0 then (Inl ValueError, h, g)
                else
                  (let (h1, samples) = np_zeros h [n_voxels, n_coefs, nat n_samples] in
                   case sample_loop_heap mean precision n_coefs (nat n_samples) [0..<n_voxels]
                          samples h1 g of
                     (Inl e, h2, g') \<Rightarrow> (Inl e, h2, g')
                   | (Inr samples, h2, g') \<Rightarrow> (Inr (squeeze (read_array h2 samples)), h2, g'))))
      | _ \<Rightarrow> (Inl ValueError, h, g))"

definition probabilistic_least_squares_heap ::
  "heap \<Rightarrow> array_ref \<Rightarrow> array_ref \<Rightarrow> array_ref option \<Rightarrow> bool \<Rightarrow> (error + pls_result) \<times> heap" where
  "probabilistic_least_squares_heap h design_matrix y regularization_matrix return_posterior_precision =
     (probabilistic_least_squares (as_matrix (read_array h design_matrix)) (read_array h y)
        (map_option (\<lambda>r. as_matrix (read_array h r)) regularization_matrix)
        return_posterior_precision,
      h)"

definition caller_heap :: heap where
  \<comment> \<open>a mean at address 0 and a precision at address 1\<close>
  "caller_heap = [[1, 2], [1, 1, 1, 2]]"

section \<open>Verification\<close>

lemmas np_defs =
  sample_coef_posterior_def atleast_2d_def reshape_def cholesky_def solve_def
  getitem_unit_matrix_def getitem_unit_vector_def setitem_unit_matrix_def add_column_def
  chunks_def randn_def zeros_def squeeze_def dot_def vsub_def smult_def lincomb_def col_def
  numeral_2_eq_2 numeral_3_eq_3

lemmas pls_defs =
  probabilistic_least_squares_def and_then_def einsum_ki_kj_ij_def einsum_ik_kj_ij_def
  einsum_ij_j_i_def swapaxes_def eye_def msub_def sum_sq_last_axis_def sum_sq_matrix_def
  as_ndarray_def as_matrix_def madd_def broadcast_op_def broadcast_shapes_def
  broadcast_to_def stretch_def fdiv_def

subsection \<open>Validation of \<open>n_samples\<close>\<close>

text \<open>
  Claim C7, as the code has it: \<^verbatim>\<open>sample_coef_posterior\<close> does not validate
  \<open>n_samples\<close>. For every mean, precision and generator, a negative \<open>n_samples\<close> ends
  the call with \<^verbatim>\<open>ValueError\<close> before any random number is drawn: if the shape
  checks pass, the allocation \<^verbatim>\<open>np.zeros((n_voxels, n_coefs, n_samples))\<close> refuses
  the negative dimension.
\<close>

theorem negative_n_samples_ValueError:
  "n_samples < 0 \<Longrightarrow> sample_coef_posterior mean precision n_samples g = (Inl ValueError, g)"
  by (simp add: sample_coef_posterior_def reshape_def Let_def split: list.splits)

theorem negative_n_samples_ValueError_witness:
  "(-1 :: int) < 0 \<and>
   sample_coef_posterior zero_mean_2 identity_precision_2 (-1) zero_rng = (Inl ValueError, zero_rng)"
  using negative_n_samples_ValueError [of "-1" zero_mean_2 identity_precision_2 zero_rng]
  by simp

text \<open>
  Claim C7 fails at \<open>n_samples = 0\<close>: with a zero mean of two coefficients and the
  identity as precision the call returns an empty array of shape \<open>(2, 0)\<close>; no error is
  raised.
\<close>

theorem zero_n_samples_returns:
  "fst (sample_coef_posterior zero_mean_2 identity_precision_2 0 zero_rng)
     = Inr \<lparr>shape = [2, 0], data = []\<rparr>"
  by (simp add: np_defs zero_mean_2_def identity_precision_2_def)

subsection \<open>Covariance of the samples\<close>

text \<open>
  Claim C1 at a concrete precision. For the precision \<open>[[1, 1], [1, 2]]\<close>, whose
  Cholesky factor is \<open>L = [[1, 0], [1, 1]]\<close>, a zero mean and the two draws \<open>(1, 0)\<close>
  and \<open>(0, 1)\<close>, \<^verbatim>\<open>sample_coef_posterior\<close> returns the matrix \<open>[[1, 0], [-1, 1]]\<close>,
  the inverse of \<open>L\<close>: the code solves \<open>L S = Z\<close>. The second moment \<open>S S\<^sup>T\<close> of these
  samples, which is the covariance of the transform, multiplied by the precision is
  \<open>[[0, -1], [1, 3]]\<close> and not the identity: the columns do not have the covariance
  \<open>precision\<^sup>-\<^sup>1\<close>.
\<close>

theorem sampler_covariance_not_inverse_precision:
  "fst (sample_coef_posterior zero_mean_2 precision_1112 2 identity_draws_2)
     = Inr \<lparr>shape = [2, 2], data = [1, 0, - 1, 1]\<rparr> \<and>
   einsum_ik_kj_ij
     (einsum_ik_kj_ij \<lparr>nrows = 2, ncols = 2, rows = [[1, 0], [- 1, 1]]\<rparr>
        (swapaxes \<lparr>nrows = 2, ncols = 2, rows = [[1, 0], [- 1, 1]]\<rparr>))
     (as_matrix precision_1112)
     = \<lparr>nrows = 2, ncols = 2, rows = [[0, - 1], [1, 3]]\<rparr> \<and>
   \<lparr>nrows = 2, ncols = 2, rows = [[0, - 1], [1, 3]]\<rparr> \<noteq> eye 2"
  by (simp add: np_defs zero_mean_2_def precision_1112_def identity_draws_2_def
        einsum_ik_kj_ij_def swapaxes_def as_matrix_def eye_def)

subsection \<open>Posterior precision of a batch\<close>

text \<open>
  Claim C3 at a batch of two observation vectors for the 3 by 2 design. Without the
  posterior precision the call returns a mean and a residual variance for each of the
  two units. With \<^verbatim>\<open>return_posterior_precision=True\<close> it raises \<^verbatim>\<open>ValueError\<close>: the
  division \<^verbatim>\<open>unscaled_posterior_precision / residual_variance\<close> broadcasts the two
  variances along the last axis of the 2 by 2 matrix, and the 4 elements of the quotient
  cannot be reshaped to \<open>(2, 2, 2)\<close>.
\<close>

theorem batched_posterior_precision_ValueError:
  "probabilistic_least_squares design_3x2 y_two_units None False
     = Inr \<lparr>coef_posterior_mean = \<lparr>shape = [2, 2], data = [5 / 6, 5 / 2, 2 / 3, 2]\<rparr>,
            residual_variance = \<lparr>shape = [2], data = [Fin (1 / 6), Fin (2 / 3)]\<rparr>,
            coef_posterior_precision = None\<rparr> \<and>
   probabilistic_least_squares design_3x2 y_two_units None True = Inl ValueError"
  by (simp add: pls_defs np_defs design_3x2_def y_two_units_def)

lemma dot_Nil [simp]: "dot [] v = 0" "dot u [] = 0"
  by (simp_all add: dot_def)

lemma dot_Cons [simp]: "dot (a # u) (b # v) = a * b + dot u v"
  by (simp add: dot_def)

lemma dot_sum: "length u = length v \<Longrightarrow> dot u v = (\<Sum>i<length u. u ! i * v ! i)"
proof (induction u v rule: list_induct2)
  case Nil
  then show ?case by simp
next
  case (Cons a u b v)
  then show ?case by (simp add: sum.lessThan_Suc_shift del: sum.lessThan_Suc)
qed

lemma dot_commute: "dot u v = dot v u"
proof (induction u arbitrary: v)
  case Nil
  then show ?case by simp
next
  case (Cons a u)
  then show ?case by (cases v) (simp_all add: mult.commute)
qed

lemma dot_zeros [simp]: "dot u (replicate n 0) = 0"
proof (induction u arbitrary: n)
  case Nil
  then show ?case by simp
next
  case (Cons a u)
  then show ?case by (cases n) simp_all
qed

lemma dot_vsub_left: "length u = length v \<Longrightarrow> dot (vsub u v) w = dot u w - dot v w"
proof (induction u v arbitrary: w rule: list_induct2)
  case Nil
  then show ?case by (simp add: vsub_def)
next
  case (Cons a u b v)
  then show ?case by (cases w) (simp_all add: vsub_def algebra_simps)
qed

lemma dot_smult_left: "dot (smult c u) w = c * dot u w"
proof (induction u arbitrary: w)
  case Nil
  then show ?case by (simp add: smult_def)
next
  case (Cons a u)
  then show ?case by (cases w) (simp_all add: smult_def algebra_simps)
qed

lemma length_vsub [simp]: "length (vsub u v) = min (length u) (length v)"
  by (simp add: vsub_def)

lemma length_smult [simp]: "length (smult c u) = length u"
  by (simp add: smult_def)

lemma col_Cons [simp]: "col (x # X) j = x ! j # col X j"
  by (simp add: col_def)

lemma col_Nil [simp]: "col [] j = []"
  by (simp add: col_def)

lemma idamax_less: "xs \<noteq> [] \<Longrightarrow> idamax xs < length xs"
  by (induction xs rule: idamax.induct) (simp_all add: Let_def)

lemma idamax_max: "i < length xs \<Longrightarrow> \<bar>xs ! i\<bar> \<le> \<bar>xs ! idamax xs\<bar>"
proof (induction xs arbitrary: i rule: idamax.induct)
  case 1
  then show ?case by simp
next
  case (2 x)
  then show ?case by simp
next
  case (3 x y ys)
  show ?case
  proof (cases i)
    case 0
    then show ?thesis by (simp add: Let_def)
  next
    case (Suc k)
    with 3 have "\<bar>(y # ys) ! k\<bar> \<le> \<bar>(y # ys) ! idamax (y # ys)\<bar>" by simp
    with Suc show ?thesis by (simp add: Let_def)
  qed
qed

lemma idamax_zero: "xs ! idamax xs = 0 \<Longrightarrow> x \<in> set xs \<Longrightarrow> x = (0::real)"
  using idamax_max [of _ xs] by (fastforce simp: in_set_conv_nth)

subsection \<open>Gaussian elimination\<close>

text \<open>One elimination step, as \<open>gesv\<close> performs it.\<close>

lemma gesv_step:
  assumes ok: "eqs_ok (Suc n) m eqs"
  obtains p pr pb rest where
    "set eqs = insert (p # pr, pb) (set rest)"
    "length pr = n" "length pb = m" "length rest = n"
    "\<forall>e \<in> set rest. length (fst e) = Suc n \<and> length (snd e) = m"
    "p = 0 \<longrightarrow> (\<forall>e \<in> set eqs. hd (fst e) = 0)"
    "gesv (Suc n) eqs =
       (if p = 0 then None
        else case gesv n (map (\<lambda>(r, b). (vsub (tl r) (smult (hd r / p) pr),
                                          vsub b (smult (hd r / p) pb))) rest) of
               None \<Rightarrow> None
             | Some X \<Rightarrow> Some (smult (1 / p) (vsub pb (lincomb (length pb) pr X)) # X))"
proof -
  define k where "k = idamax (map (hd \<circ> fst) eqs)"
  define eqs' where "eqs' = eqs[0 := eqs ! k, k := eqs ! 0]"
  from ok have len: "length eqs = Suc n" by (simp add: eqs_ok_def)
  then have k: "k < length eqs"
    unfolding k_def using idamax_less [of "map (hd \<circ> fst) eqs"] by (cases eqs) auto
  have set': "set eqs' = set eqs"
    unfolding eqs'_def using k len by (simp add: set_swap)
  have len': "length eqs' = Suc n" by (simp add: eqs'_def len)
  then obtain e rest where eqs': "eqs' = e # rest" by (cases eqs') auto
  have "eqs' ! 0 = eqs ! k"
    unfolding eqs'_def using k len by (cases "k = 0") (simp_all add: nth_list_update)
  then have e: "e = eqs ! k" using eqs' by simp
  have "e \<in> set eqs" using set' eqs' by auto
  with ok have le: "length (fst e) = Suc n" "length (snd e) = m" by (auto simp: eqs_ok_def)
  then obtain p pr where fe: "fst e = p # pr" by (cases "fst e") auto
  have p: "p = map (hd \<circ> fst) eqs ! k" using e fe k by simp
  have zero: "p = 0 \<longrightarrow> (\<forall>e \<in> set eqs. hd (fst e) = 0)"
  proof (intro impI ballI)
    fix e' assume "p = 0" "e' \<in> set eqs"
    then have "map (hd \<circ> fst) eqs ! idamax (map (hd \<circ> fst) eqs) = 0" "hd (fst e') \<in> set (map (hd \<circ> fst) eqs)"
      using p by (auto simp: k_def)
    then show "hd (fst e') = 0" by (rule idamax_zero)
  qed
  show thesis
  proof (rule that [of p pr "snd e" rest])
    show "set eqs = insert (p # pr, snd e) (set rest)"
      using set' eqs' fe by (metis list.simps(15) prod.collapse)
    show "length pr = n" using le fe by simp
    show "length (snd e) = m" by (rule le)
    show "length rest = n" using len' eqs' by simp
    show "\<forall>e \<in> set rest. length (fst e) = Suc n \<and> length (snd e) = m"
      using ok set' eqs' by (auto simp: eqs_ok_def)
    show "p = 0 \<longrightarrow> (\<forall>e \<in> set eqs. hd (fst e) = 0)" by (rule zero)
    show "gesv (Suc n) eqs =
       (if p = 0 then None
        else case gesv n (map (\<lambda>(r, b). (vsub (tl r) (smult (hd r / p) pr),
                                          vsub b (smult (hd r / p) (snd e)))) rest) of
               None \<Rightarrow> None
             | Some X \<Rightarrow> Some (smult (1 / p) (vsub (snd e) (lincomb (length (snd e)) pr X)) # X))"
      using eqs' fe
      by (simp add: Let_def k_def [symmetric] eqs'_def [symmetric] split: option.split)
  qed
qed

lemma nth_smult [simp]: "j < length v \<Longrightarrow> smult c v ! j = c * v ! j"
  by (simp add: smult_def)

lemma nth_vsub [simp]: "j < length u \<Longrightarrow> j < length v \<Longrightarrow> vsub u v ! j = u ! j - v ! j"
  by (simp add: vsub_def)

lemma length_lincomb [simp]: "length (lincomb m r X) = m"
  by (simp add: lincomb_def)

lemma nth_lincomb [simp]: "j < m \<Longrightarrow> lincomb m r X ! j = dot r (col X j)"
  by (simp add: lincomb_def)

lemma reduced_ok:
  assumes "length pr = n" "length pb = m" "length rest = n"
    "\<forall>e \<in> set rest. length (fst e) = Suc n \<and> length (snd e) = m"
  shows "eqs_ok n m (map (\<lambda>(r, b). (vsub (tl r) (smult c pr), vsub b (smult (d r) pb))) rest)"
  using assms by (auto simp: eqs_ok_def)

lemma gesv_sound:
  "eqs_ok n m eqs \<Longrightarrow> gesv n eqs = Some X \<Longrightarrow>
     length X = n \<and> (\<forall>x \<in> set X. length x = m) \<and>
     (\<forall>e \<in> set eqs. \<forall>j < m. dot (fst e) (col X j) = snd e ! j)"
proof (induction n arbitrary: eqs X)
  case 0
  then show ?case by (simp add: eqs_ok_def)
next
  case (Suc n)
  from Suc.prems(1) obtain p pr pb rest where
    set: "set eqs = insert (p # pr, pb) (set rest)" and
    len: "length pr = n" "length pb = m" "length rest = n" and
    rest: "\<forall>e \<in> set rest. length (fst e) = Suc n \<and> length (snd e) = m" and
    step: "gesv (Suc n) eqs =
       (if p = 0 then None
        else case gesv n (map (\<lambda>(r, b). (vsub (tl r) (smult (hd r / p) pr),
                                          vsub b (smult (hd r / p) pb))) rest) of
               None \<Rightarrow> None
             | Some X \<Rightarrow> Some (smult (1 / p) (vsub pb (lincomb (length pb) pr X)) # X))"
    by (rule gesv_step)
  define rest' where
    "rest' = map (\<lambda>(r, b). (vsub (tl r) (smult (hd r / p) pr), vsub b (smult (hd r / p) pb))) rest"
  have ok': "eqs_ok n m rest'"
    unfolding rest'_def using len rest by (auto simp: eqs_ok_def)
  from Suc.prems(2) step have p: "p \<noteq> 0" by (auto split: if_splits)
  with Suc.prems(2) step obtain X' where
    X': "gesv n rest' = Some X'" and
    X: "X = smult (1 / p) (vsub pb (lincomb m pr X')) # X'"
    by (auto simp: rest'_def len split: option.splits)
  from Suc.IH [OF ok' X'] have
    lX': "length X' = n" and rX': "\<forall>x \<in> set X'. length x = m" and
    sol': "\<forall>e \<in> set rest'. \<forall>j < m. dot (fst e) (col X' j) = snd e ! j"
    by auto
  have pivot: "dot (p # pr) (col X j) = pb ! j" if "j < m" for j
    using that p len by (simp add: X)
  have other: "dot (fst e) (col X j) = snd e ! j" if e: "e \<in> set rest" and j: "j < m" for e j
  proof -
    obtain a r b where e': "e = (a # r, b)" and lr: "length r = n" and lb: "length b = m"
      using rest e by (cases e; cases "fst e") auto
    have "(vsub r (smult (a / p) pr), vsub b (smult (a / p) pb)) \<in> set rest'"
      unfolding rest'_def using e e' by force
    with sol' j have "dot (vsub r (smult (a / p) pr)) (col X' j) = vsub b (smult (a / p) pb) ! j"
      by fastforce
    then have "dot r (col X' j) - a / p * dot pr (col X' j) = b ! j - a / p * pb ! j"
      using lr len lb j by (simp add: dot_vsub_left dot_smult_left)
    then show ?thesis
      using p j len by (simp add: e' X field_simps)
  qed
  show ?case
    using lX' rX' len pivot other by (auto simp: X set)
qed

lemma gesv_singular:
  "eqs_ok n m eqs \<Longrightarrow> gesv n eqs = None \<Longrightarrow>
     \<exists>v. length v = n \<and> v \<noteq> replicate n 0 \<and> (\<forall>e \<in> set eqs. dot (fst e) v = 0)"
proof (induction n arbitrary: eqs)
  case 0
  then show ?case by simp
next
  case (Suc n)
  from Suc.prems(1) obtain p pr pb rest where
    set: "set eqs = insert (p # pr, pb) (set rest)" and
    len: "length pr = n" "length pb = m" "length rest = n" and
    rest: "\<forall>e \<in> set rest. length (fst e) = Suc n \<and> length (snd e) = m" and
    zero: "p = 0 \<longrightarrow> (\<forall>e \<in> set eqs. hd (fst e) = 0)" and
    step: "gesv (Suc n) eqs =
       (if p = 0 then None
        else case gesv n (map (\<lambda>(r, b). (vsub (tl r) (smult (hd r / p) pr),
                                          vsub b (smult (hd r / p) pb))) rest) of
               None \<Rightarrow> None
             | Some X \<Rightarrow> Some (smult (1 / p) (vsub pb (lincomb (length pb) pr X)) # X))"
    by (rule gesv_step)
  define rest' where
    "rest' = map (\<lambda>(r, b). (vsub (tl r) (smult (hd r / p) pr), vsub b (smult (hd r / p) pb))) rest"
  have ok': "eqs_ok n m rest'"
    unfolding rest'_def using len rest by (auto simp: eqs_ok_def)
  show ?case
  proof (cases "p = 0")
    case True
    have "dot (fst e) (1 # replicate n 0) = 0" if "e \<in> set eqs" for e
    proof -
      from Suc.prems(1) that obtain a r where fe: "fst e = a # r"
        by (cases "fst e") (auto simp: eqs_ok_def)
      with zero True that show ?thesis by force
    qed
    then show ?thesis
      by (intro exI [of _ "1 # replicate n 0"]) simp
  next
    case False
    with Suc.prems(2) step have "gesv n rest' = None"
      by (auto simp: rest'_def split: option.splits)
    from Suc.IH [OF ok' this] obtain v' where
      lv': "length v' = n" and nz: "v' \<noteq> replicate n 0" and
      ker: "\<forall>e \<in> set rest'. dot (fst e) v' = 0"
      by auto
    define v0 where "v0 = - dot pr v' / p"
    have piv: "dot (p # pr) (v0 # v') = 0"
      using False by (simp add: v0_def)
    have other: "dot (fst e) (v0 # v') = 0" if e: "e \<in> set rest" for e
    proof -
      obtain a r where fe: "fst e = a # r" and lr: "length r = n"
        using rest e by (cases "fst e") auto
      have "(vsub r (smult (a / p) pr), vsub (snd e) (smult (a / p) pb)) \<in> set rest'"
        unfolding rest'_def using e fe
        by (auto simp: case_prod_beta intro!: image_eqI [of _ _ e])
      with ker have "dot (vsub r (smult (a / p) pr)) v' = 0" by fastforce
      then have "dot r v' = a / p * dot pr v'"
        using lr len by (simp add: dot_vsub_left dot_smult_left)
      then show ?thesis
        using False by (simp add: fe v0_def)
    qed
    show ?thesis
      using lv' nz piv other by (intro exI [of _ "v0 # v'"]) (auto simp: set)
  qed
qed

lemma dot_zeros_left [simp]: "dot (replicate n 0) u = 0"
  by (simp add: dot_commute [of "replicate n 0"])




lemma col_swapaxes_rows:
  "wf_matrix a \<Longrightarrow> k < nrows a \<Longrightarrow> col (rows (swapaxes a)) k = rows a ! k"
  by (auto simp: swapaxes_def col_def wf_matrix_def intro!: nth_equalityI)










lemma eqs_ok_zip:
  "wf_matrix a \<Longrightarrow> nrows a = ncols a \<Longrightarrow> wf_matrix b \<Longrightarrow> nrows b = nrows a \<Longrightarrow>
     eqs_ok (nrows a) (ncols b) (zip (rows a) (rows b))"
  by (auto simp: eqs_ok_def wf_matrix_def dest: set_zip_leftD set_zip_rightD)

lemma fst_set_zip:
  "length xs = length ys \<Longrightarrow> fst ` set (zip xs ys) = set xs"
  by (metis map_fst_zip set_map)

lemma solve_full_rank:
  assumes "wf_matrix a" "nrows a = ncols a" "wf_matrix b" "nrows b = nrows a" "full_column_rank a"
  obtains X where "solve a b = Inr X" "wf_matrix X" "nrows X = nrows a" "ncols X = ncols b"
    "\<forall>i < nrows a. lincomb (ncols b) (rows a ! i) (rows X) = rows b ! i"
proof -
  have ok: "eqs_ok (nrows a) (ncols b) (zip (rows a) (rows b))"
    using assms(1-4) by (rule eqs_ok_zip)
  have len: "length (rows a) = length (rows b)" "length (rows a) = nrows a"
    using assms by (simp_all add: wf_matrix_def)
  have "gesv (nrows a) (zip (rows a) (rows b)) \<noteq> None"
  proof
    assume "gesv (nrows a) (zip (rows a) (rows b)) = None"
    from gesv_singular [OF ok this] obtain v where
      v: "length v = nrows a" "v \<noteq> replicate (nrows a) 0"
         "\<forall>e \<in> set (zip (rows a) (rows b)). dot (fst e) v = 0"
      by auto
    have "\<forall>r \<in> set (rows a). dot r v = 0"
      using v(3) fst_set_zip [OF len(1)] by (metis imageE)
    with v assms(2,5) show False
      by (auto simp: full_column_rank_def in_kernel_def)
  qed
  then obtain Y where Y: "gesv (nrows a) (zip (rows a) (rows b)) = Some Y" by auto
  from gesv_sound [OF ok Y] have
    Y1: "length Y = nrows a" "\<forall>x \<in> set Y. length x = ncols b" and
    Y2: "\<forall>e \<in> set (zip (rows a) (rows b)). \<forall>j < ncols b. dot (fst e) (col Y j) = snd e ! j"
    by auto
  have rows: "lincomb (ncols b) (rows a ! i) Y = rows b ! i" if i: "i < nrows a" for i
  proof (rule nth_equalityI)
    show "length (lincomb (ncols b) (rows a ! i) Y) = length (rows b ! i)"
      using assms i by (simp add: wf_matrix_def)
    fix j assume "j < length (lincomb (ncols b) (rows a ! i) Y)"
    then have j: "j < ncols b" by simp
    have "(rows a ! i, rows b ! i) \<in> set (zip (rows a) (rows b))"
      using i len by (auto simp: set_zip)
    with Y2 j show "lincomb (ncols b) (rows a ! i) Y ! j = rows b ! i ! j" by fastforce
  qed
  show thesis
  proof (rule that [of "\<lparr>nrows = nrows a, ncols = ncols b, rows = Y\<rparr>"])
    show "solve a b = Inr \<lparr>nrows = nrows a, ncols = ncols b, rows = Y\<rparr>"
      using assms Y by (simp add: solve_def)
  qed (use Y1 rows in \<open>simp_all add: wf_matrix_def\<close>)
qed


subsection \<open>Arrays of equal shape\<close>

lemma chunks_Suc: "chunks (Suc k) m xs = take m xs # chunks k m (drop m xs)"
proof -
  have "[0..<Suc k] = 0 # map Suc [0..<k]"
    by (simp add: upt_conv_Cons map_Suc_upt del: upt_Suc)
  then show ?thesis
    by (simp add: chunks_def add.commute del: upt_Suc)
qed

lemma chunks_0 [simp]: "chunks 0 m xs = []"
  by (simp add: chunks_def)


lemma chunks_lengths: "length xs = k * m \<Longrightarrow> \<forall>c \<in> set (chunks k m xs). length c = m"
proof (induction k arbitrary: xs)
  case 0
  then show ?case by simp
next
  case (Suc k)
  then have "length (drop m xs) = k * m" by simp
  with Suc.IH have "\<forall>c \<in> set (chunks k m (drop m xs)). length c = m" by blast
  with Suc.prems show ?case by (simp add: chunks_Suc)
qed

lemma length_chunks [simp]: "length (chunks k m xs) = k"
  by (simp add: chunks_def)







subsection \<open>The pseudo-inverse and the residual matrix\<close>






lemma length_matvec [simp]: "length (matvec X v) = length X"
  by (simp add: matvec_def)

lemma nth_matvec [simp]: "i < length X \<Longrightarrow> matvec X v ! i = dot (X ! i) v"
  by (simp add: matvec_def)



lemma length_eye_rows [simp]: "length (rows (eye n)) = n"
  by (simp add: eye_def)





subsection \<open>Exact fit\<close>






subsection \<open>Cholesky factorization\<close>

lemma length_chol_row [simp]: "length (chol_row L a j) = j"
  by (induction j) (simp_all add: Let_def)

lemma chol_row_prefix: "k < c \<Longrightarrow> c \<le> j \<Longrightarrow> chol_row L a j ! k = chol_row L a c ! k"
proof (induction j)
  case 0
  then show ?case by simp
next
  case (Suc j)
  show ?case
  proof (cases "c = Suc j")
    case True
    then show ?thesis by simp
  next
    case False
    with Suc have "chol_row L a j ! k = chol_row L a c ! k" by simp
    moreover have "k < j" using Suc.prems False by simp
    ultimately show ?thesis by (simp add: Let_def nth_append)
  qed
qed

lemma chol_row_nth:
  "k < j \<Longrightarrow> chol_row L a j ! k = (a ! k - dot (L ! k) (chol_row L a k)) / (L ! k ! k)"
proof -
  assume "k < j"
  then have "chol_row L a j ! k = chol_row L a (Suc k) ! k"
    by (intro chol_row_prefix) simp_all
  then show ?thesis by (simp add: Let_def nth_append)
qed

lemma dot_truncate: "length v \<le> length u \<Longrightarrow> dot u v = (\<Sum>t<length v. u ! t * v ! t)"
proof (induction v arbitrary: u)
  case Nil
  then show ?case by simp
next
  case (Cons b v)
  then obtain a u' where u: "u = a # u'" by (cases u) auto
  with Cons show ?case
    by (simp add: sum.lessThan_Suc_shift del: sum.lessThan_Suc)
qed

text \<open>The product of a row that ends in zeros with any vector only sees the leading entries.\<close>

lemma dot_lower:
  assumes "length u = n" "length v = n" "c < n" "\<forall>t < n. c < t \<longrightarrow> u ! t = 0"
  shows "dot u v = (\<Sum>t<Suc c. u ! t * v ! t)"
proof -
  have "dot u v = (\<Sum>t<n. u ! t * v ! t)" using assms by (simp add: dot_sum)
  also have "\<dots> = (\<Sum>t<Suc c. u ! t * v ! t)"
    using assms by (intro sum.mono_neutral_right) auto
  finally show ?thesis .
qed

lemma dot_lower_chol_row:
  assumes lu: "length u = n" and c: "c < j" "j \<le> n" and low: "\<forall>t < n. c < t \<longrightarrow> u ! t = 0" and
    nz: "u ! c \<noteq> 0" and Lc: "L ! c = u" and lrest: "length rest = n - j"
  shows "dot u (chol_row L a j @ rest) = a ! c"
proof -
  let ?x = "chol_row L a j"
  have cn: "c < n" using c by simp
  have "dot u (?x @ rest) = (\<Sum>t<Suc c. u ! t * (?x @ rest) ! t)"
    using lu c lrest low by (intro dot_lower [of _ n]) simp_all
  also have "\<dots> = (\<Sum>t<Suc c. u ! t * ?x ! t)"
    using c by (intro sum.cong) (simp_all add: nth_append)
  also have "\<dots> = (\<Sum>t<c. u ! t * ?x ! t) + u ! c * ?x ! c" by simp
  also have "(\<Sum>t<c. u ! t * ?x ! t) = (\<Sum>t<c. u ! t * chol_row L a c ! t)"
  proof (intro sum.cong refl)
    fix t assume "t \<in> {..<c}"
    then have "t < c" by simp
    then have "chol_row L a j ! t = chol_row L a c ! t"
      using c(1) by (intro chol_row_prefix) simp_all
    then show "u ! t * chol_row L a j ! t = u ! t * chol_row L a c ! t" by simp
  qed
  also have "\<dots> = dot u (chol_row L a c)"
    using lu cn by (simp add: dot_truncate)
  also have "?x ! c = (a ! c - dot u (chol_row L a c)) / u ! c"
    using c Lc by (simp add: chol_row_nth)
  finally show ?thesis using nz by simp
qed

lemma dot_append: "length u = length v \<Longrightarrow> dot (u @ u') (v @ v') = dot u v + dot u' v'"
  by (induction u v rule: list_induct2) simp_all

lemma potrf_Suc:
  assumes "potrf A n (Suc i) = Some L"
  obtains L0 where "potrf A n i = Some L0"
    "0 < A ! i ! i - dot (chol_row L0 (A ! i) i) (chol_row L0 (A ! i) i)"
    "L = L0 @ [chol_row L0 (A ! i) i
               @ [sqrt (A ! i ! i - dot (chol_row L0 (A ! i) i) (chol_row L0 (A ! i) i))]
               @ replicate (n - Suc i) 0]"
  using assms by (auto simp: Let_def split: option.splits if_splits)

lemma potrf_inv: "i \<le> n \<Longrightarrow> potrf A n i = Some L \<Longrightarrow> chol_inv A n i L"
proof (induction i arbitrary: L)
  case 0
  then show ?case by (simp add: chol_inv_def)
next
  case (Suc i)
  from Suc.prems(2) obtain L0 where
    L0: "potrf A n i = Some L0" and
    d: "0 < A ! i ! i - dot (chol_row L0 (A ! i) i) (chol_row L0 (A ! i) i)" and
    L: "L = L0 @ [chol_row L0 (A ! i) i
               @ [sqrt (A ! i ! i - dot (chol_row L0 (A ! i) i) (chol_row L0 (A ! i) i))]
               @ replicate (n - Suc i) 0]"
    by (rule potrf_Suc)
  define x where "x = chol_row L0 (A ! i) i"
  define d' where "d' = A ! i ! i - dot x x"
  define row where "row = x @ [sqrt d'] @ replicate (n - Suc i) 0"
  have L': "L = L0 @ [row]" by (simp add: L row_def d'_def x_def)
  have dpos: "0 < d'" using d by (simp add: d'_def x_def)
  have i: "i < n" using Suc.prems(1) by simp
  from Suc.IH [OF _ L0] i have inv: "chol_inv A n i L0" by simp
  then have lL0: "length L0 = i" and
    len0: "\<forall>r < i. length (L0 ! r) = n" and
    up0: "\<forall>r < i. \<forall>c < n. r < c \<longrightarrow> L0 ! r ! c = 0" and
    pos0: "\<forall>r < i. 0 < L0 ! r ! r" and
    prod0: "\<forall>r < i. \<forall>c \<le> r. dot (L0 ! r) (L0 ! c) = A ! r ! c"
    by (simp_all add: chol_inv_def)
  have lx: "length x = i" by (simp add: x_def)
  have lrow: "length row = n" using i lx by (simp add: row_def)
  have old: "L ! r = L0 ! r" if "r < i" for r
    using that lL0 by (simp add: L' nth_append)
  have new: "L ! i = row" using lL0 by (simp add: L' nth_append)
  have rowi: "row ! i = sqrt d'" using lx by (simp add: row_def nth_append)
  have rowup: "row ! c = 0" if "i < c" "c < n" for c
    using that lx by (simp add: row_def nth_append nth_Cons')
  have rowc: "dot row (L0 ! c) = A ! i ! c" if c: "c < i" for c
  proof -
    have "dot (L0 ! c) (chol_row L0 (A ! i) i @ [sqrt d'] @ replicate (n - Suc i) 0) = A ! i ! c"
    proof (rule dot_lower_chol_row [of _ n])
      show "length (L0 ! c) = n" using len0 c by simp
      show "c < i" by (rule c)
      show "i \<le> n" using i by simp
      show "\<forall>t < n. c < t \<longrightarrow> L0 ! c ! t = 0" using up0 c by simp
      show "L0 ! c ! c \<noteq> 0" using pos0 c by fastforce
      show "L0 ! c = L0 ! c" ..
      show "length ([sqrt d'] @ replicate (n - Suc i) 0) = n - i" using i by simp
    qed
    then show ?thesis by (simp add: row_def x_def dot_commute)
  qed
  have rowrow: "dot row row = A ! i ! i"
  proof -
    have "dot row row = dot x x + dot ([sqrt d'] @ replicate (n - Suc i) 0) ([sqrt d'] @ replicate (n - Suc i) 0)"
      unfolding row_def by (rule dot_append) simp
    also have "\<dots> = dot x x + d'" using dpos by simp
    finally show ?thesis by (simp add: d'_def)
  qed
  show ?case
    unfolding chol_inv_def
  proof (intro conjI allI impI)
    show "length L = Suc i" using lL0 by (simp add: L')
  next
    fix r assume "r < Suc i"
    then show "length (L ! r) = n"
      using len0 lrow old new by (cases "r = i") simp_all
  next
    fix r c assume "r < Suc i" "c < n" "r < c"
    then show "L ! r ! c = 0"
      using up0 rowup old new by (cases "r = i") simp_all
  next
    fix r assume "r < Suc i"
    then show "0 < L ! r ! r"
      using pos0 rowi dpos old new by (cases "r = i") simp_all
  next
    fix r c assume rc: "r < Suc i" "c \<le> r"
    show "dot (L ! r) (L ! c) = A ! r ! c"
    proof (cases "r = i")
      case True
      show ?thesis
      proof (cases "c = i")
        case True
        with \<open>r = i\<close> show ?thesis using rowrow new by simp
      next
        case False
        with rc \<open>r = i\<close> have "c < i" by simp
        with \<open>r = i\<close> show ?thesis using rowc old new by simp
      qed
    next
      case False
      with rc have "r < i" "c < i" by simp_all
      with rc prod0 old show ?thesis by simp
    qed
  qed
qed

lemma swapaxes_swapaxes: "wf_matrix a \<Longrightarrow> swapaxes (swapaxes a) = a"
proof -
  assume wf: "wf_matrix a"
  have "map (col (rows (swapaxes a))) [0..<nrows a] = rows a"
    using wf by (intro nth_equalityI) (simp_all add: col_swapaxes_rows wf_matrix_def)
  then show ?thesis by (simp add: swapaxes_def [of "swapaxes a"]) (simp add: swapaxes_def)
qed

text \<open>A lower-triangular matrix with positive diagonal maps only the zero vector to zero.\<close>

lemma lower_kernel_trivial:
  assumes inv: "chol_inv A n n L" and lv: "length v = n" and ker: "\<forall>r < n. dot (L ! r) v = 0"
  shows "v = replicate n 0"
proof -
  have "v ! r = 0" if "r < n" for r
    using that
  proof (induction r rule: less_induct)
    case (less r)
    have "dot (L ! r) v = (\<Sum>t<Suc r. L ! r ! t * v ! t)"
      using inv lv less.prems by (intro dot_lower [of _ n]) (simp_all add: chol_inv_def)
    also have "\<dots> = (\<Sum>t<r. L ! r ! t * v ! t) + L ! r ! r * v ! r" by simp
    also have "(\<Sum>t<r. L ! r ! t * v ! t) = 0"
      using less by (intro sum.neutral) simp
    finally have "L ! r ! r * v ! r = 0" using ker less.prems by simp
    moreover have "0 < L ! r ! r" using inv less.prems by (simp add: chol_inv_def)
    ultimately show ?case by simp
  qed
  then show ?thesis using lv by (intro nth_equalityI) simp_all
qed

lemma upper_block_kernel_trivial:
  assumes inv: "chol_inv A n i L" and le: "i \<le> n" and lv: "length v = i" and
    ker: "\<forall>k < i. dot (col L k) v = 0"
  shows "v = replicate i 0"
proof -
  have lL: "length L = i" using inv by (simp add: chol_inv_def)
  have "v ! r = 0" if "r < i" for r
    using that
  proof (induction "i - r" arbitrary: r rule: less_induct)
    case less
    have "dot (col L r) v = (\<Sum>t<i. L ! t ! r * v ! t)"
      using lL lv by (simp add: dot_sum col_def)
    also have "\<dots> = (\<Sum>t<i. if t = r then L ! r ! r * v ! r else 0)"
    proof (intro sum.cong refl)
      fix t assume "t \<in> {..<i}"
      then have t: "t < i" by simp
      consider "t < r" | "t = r" | "r < t" by linarith
      then show "L ! t ! r * v ! t = (if t = r then L ! r ! r * v ! r else 0)"
      proof cases
        case 1
        then have "L ! t ! r = 0" using inv t less.prems le by (simp add: chol_inv_def)
        with 1 show ?thesis by simp
      next
        case 2
        then show ?thesis by simp
      next
        case 3
        then have "i - t < i - r" using t by simp
        then have "v ! t = 0" using t by (rule less.hyps)
        with 3 show ?thesis by simp
      qed
    qed
    also have "\<dots> = L ! r ! r * v ! r" using less.prems by simp
    finally have "L ! r ! r * v ! r = 0" using ker less.prems by simp
    moreover have "0 < L ! r ! r" using inv less.prems by (simp add: chol_inv_def)
    ultimately show ?case by simp
  qed
  then show ?thesis using lv by (intro nth_equalityI) simp_all
qed

subsection \<open>The sampling loop\<close>

lemma chunks_lengths_ge: "k * m \<le> length xs \<Longrightarrow> \<forall>c \<in> set (chunks k m xs). length c = m"
proof (induction k arbitrary: xs)
  case 0
  then show ?case by simp
next
  case (Suc k)
  then have "k * m \<le> length (drop m xs)" by simp
  with Suc.IH have "\<forall>c \<in> set (chunks k m (drop m xs)). length c = m" by blast
  with Suc.prems show ?case by (simp add: chunks_Suc)
qed

lemma wf_randn: "wf_matrix (fst (randn d0 d1 g))"
  using chunks_lengths [of "map g [0..<d0 * d1]" d0 d1]
  by (simp add: randn_def wf_matrix_def)

lemma dims_randn [simp]: "nrows (fst (randn d0 d1 g)) = d0" "ncols (fst (randn d0 d1 g)) = d1"
  by (simp_all add: randn_def)

lemma wf_getitem_unit_matrix:
  assumes "shape a = [v, p, q]" "length (data a) = v * (p * q)" "i < v"
  shows "wf_matrix (getitem_unit_matrix a i)" "nrows (getitem_unit_matrix a i) = p"
    "ncols (getitem_unit_matrix a i) = q"
proof -
  have "Suc i * (p * q) \<le> v * (p * q)" using assms(3) by (intro mult_le_mono1) simp
  then have "p * q \<le> length (drop (i * (p * q)) (data a))" using assms(2) by simp
  then have "\<forall>c \<in> set (chunks p q (drop (i * (p * q)) (data a))). length c = q"
    by (rule chunks_lengths_ge)
  then show "wf_matrix (getitem_unit_matrix a i)"
    using assms(1) by (simp add: getitem_unit_matrix_def wf_matrix_def)
  show "nrows (getitem_unit_matrix a i) = p" "ncols (getitem_unit_matrix a i) = q"
    using assms(1) by (simp_all add: getitem_unit_matrix_def)
qed

text \<open>What a successful Cholesky factorization returns.\<close>

lemma cholesky_Inr:
  assumes "cholesky a = Inr Lm"
  shows "chol_inv (rows a) (nrows a) (nrows a) (rows Lm)" "nrows Lm = nrows a" "ncols Lm = nrows a"
    "nrows a = ncols a"
proof -
  from assms have sq: "nrows a = ncols a" by (auto simp: cholesky_def split: if_splits)
  with assms obtain L where L: "potrf (rows a) (nrows a) (nrows a) = Some L" and
    Lm: "Lm = \<lparr>nrows = nrows a, ncols = nrows a, rows = L\<rparr>"
    by (auto simp: cholesky_def split: option.splits)
  from potrf_inv [OF _ L] show "chol_inv (rows a) (nrows a) (nrows a) (rows Lm)"
    by (simp add: Lm)
  show "nrows Lm = nrows a" "ncols Lm = nrows a" by (simp_all add: Lm)
  show "nrows a = ncols a" by (rule sq)
qed


lemma cholesky_factor_solvable:
  assumes chol: "cholesky a = Inr Lm" and Z: "wf_matrix Z" "nrows Z = nrows a"
  obtains S where "solve Lm Z = Inr S" "wf_matrix S" "nrows S = nrows a" "ncols S = ncols Z"
proof -
  note c = cholesky_Inr [OF chol]
  have inv: "chol_inv (rows a) (nrows a) (nrows a) (rows Lm)" by (rule c(1))
  have wfL: "wf_matrix Lm"
    using inv c(2,3) by (auto simp: wf_matrix_def chol_inv_def in_set_conv_nth)
  have sqL: "nrows Lm = ncols Lm" using c(2,3) by simp
  have full: "full_column_rank Lm"
    unfolding full_column_rank_def in_kernel_def
  proof (intro allI impI)
    fix v assume v: "length v = ncols Lm \<and> (\<forall>r \<in> set (rows Lm). dot r v = 0)"
    have "length (rows Lm) = nrows a" using inv by (simp add: chol_inv_def)
    with v have "\<forall>r < nrows a. dot (rows Lm ! r) v = 0" by simp
    with inv v c(3) have "v = replicate (nrows a) 0"
      by (intro lower_kernel_trivial [of "rows a" _ "rows Lm"]) simp_all
    then show "v = replicate (ncols Lm) 0" using c(3) by simp
  qed
  have "nrows Z = nrows Lm" using Z(2) c(2) by simp
  with solve_full_rank [OF wfL sqL Z(1) _ full] show thesis
    using that c(2) by metis
qed

lemma shape_setitem_unit_matrix [simp]: "shape (setitem_unit_matrix a i b) = shape a"
  by (simp add: setitem_unit_matrix_def Let_def)


lemma sample_loop_returns:
  assumes "shape precision = [v, p, p]" "length (data precision) = v * (p * p)"
    "\<forall>i \<in> set is. i < v"
    "\<forall>i \<in> set is. \<exists>Lm. cholesky (getitem_unit_matrix precision i) = Inr Lm"
  shows "\<exists>s. fst (sample_loop mean precision p m is samples g) = Inr s \<and> shape s = shape samples"
  using assms(3,4)
proof (induction "is" arbitrary: samples g)
  case Nil
  then show ?case by simp
next
  case (Cons i "is")
  obtain Z g' where Z: "randn p m g = (Z, g')" by (cases "randn p m g")
  have wfZ: "wf_matrix Z" "nrows Z = p" "ncols Z = m"
    using wf_randn [of p m g] dims_randn [of p m g] by (simp_all add: Z)
  have i: "i < v" using Cons.prems(1) by simp
  note U = wf_getitem_unit_matrix [OF assms(1,2) i]
  from Cons.prems(2) obtain Lm where Lm: "cholesky (getitem_unit_matrix precision i) = Inr Lm"
    by auto
  from cholesky_factor_solvable [OF Lm wfZ(1)] wfZ(2) U(2)
  obtain S where S: "solve Lm Z = Inr S" by auto
  from Cons.IH [of "setitem_unit_matrix samples i (add_column (getitem_unit_vector mean i) S)" g']
    Cons.prems
  show ?case by (simp add: Z Lm S)
qed

subsection \<open>Precision that is not positive-definite\<close>

lemma fst_sample_coef_posterior:
  assumes "shape (atleast_2d mean) = [n_voxels, n_coefs]"
    "reshape precision [n_voxels, n_coefs, n_coefs] = Inr P" "0 \<le> n_samples"
  shows "fst (sample_coef_posterior mean precision n_samples g)
           = map_sum id squeeze
               (fst (sample_loop (atleast_2d mean) P n_coefs (nat n_samples) [0..<n_voxels]
                      (zeros [n_voxels, n_coefs, nat n_samples]) g))"
proof -
  obtain r g' where r: "sample_loop (atleast_2d mean) P n_coefs (nat n_samples) [0..<n_voxels]
                      (zeros [n_voxels, n_coefs, nat n_samples]) g = (r, g')"
    by (cases "sample_loop (atleast_2d mean) P n_coefs (nat n_samples) [0..<n_voxels]
                      (zeros [n_voxels, n_coefs, nat n_samples]) g")
  with assms show ?thesis
    by (cases r) (simp_all add: sample_coef_posterior_def Let_def)
qed








subsection \<open>Positive-definite matrices have a Cholesky factor\<close>

lemma dot_append_zeros: "dot u (x @ replicate k 0) = dot u x"
proof (induction x arbitrary: u)
  case Nil
  then show ?case by simp
next
  case (Cons b x)
  then show ?case by (cases u) simp_all
qed

lemma dot_map_uminus: "dot u (map uminus w) = - dot u w"
proof (induction w arbitrary: u)
  case Nil
  then show ?case by simp
next
  case (Cons b w)
  then show ?case by (cases u) simp_all
qed

text \<open>The product with a vector of the form \<open>(-w, 1, 0, \<dots>, 0)\<close>.\<close>

lemma dot_probe:
  assumes "length u = n" "i < n" "length w = i"
  shows "dot u (map uminus w @ 1 # replicate (n - Suc i) 0) = u ! i - dot u w"
proof -
  have u: "u = take i u @ u ! i # drop (Suc i) u"
    using assms by (simp add: id_take_nth_drop)
  have "dot u (map uminus w @ 1 # replicate (n - Suc i) 0)
      = dot (take i u @ u ! i # drop (Suc i) u) (map uminus w @ 1 # replicate (n - Suc i) 0)"
    using u by simp
  also have "\<dots> = dot (take i u) (map uminus w) + dot (u ! i # drop (Suc i) u) (1 # replicate (n - Suc i) 0)"
    using assms by (intro dot_append) simp
  also have "\<dots> = u ! i - dot (take i u) w"
    by (simp add: dot_map_uminus)
  also have "dot (take i u) w = dot u w"
    using assms by (simp add: dot_truncate)
  finally show ?thesis .
qed

lemma chol_pivot_positive:
  assumes inv: "chol_inv (rows a) n i L0" and i: "i < n" and wf: "wf_matrix a" and
    sq: "nrows a = n" "ncols a = n" and sym: "symmetric a" and pd: "positive_definite a"
  shows "0 < rows a ! i ! i - dot (chol_row L0 (rows a ! i) i) (chol_row L0 (rows a ! i) i)"
proof -
  define A where "A = rows a"
  define x where "x = chol_row L0 (A ! i) i"
  have lL0: "length L0 = i" and
    len0: "\<forall>r < i. length (L0 ! r) = n" and
    up0: "\<forall>r < i. \<forall>c < n. r < c \<longrightarrow> L0 ! r ! c = 0" and
    pos0: "\<forall>r < i. 0 < L0 ! r ! r" and
    prod0: "\<forall>r < i. \<forall>c \<le> r. dot (L0 ! r) (L0 ! c) = A ! r ! c"
    using inv by (simp_all add: chol_inv_def A_def)
  have lA: "length A = n" "\<forall>r < n. length (A ! r) = n"
    using wf sq by (simp_all add: wf_matrix_def A_def)
  have symA: "A ! r ! c = A ! c ! r" if "r < n" "c < n" for r c
    using sym sq that by (simp add: symmetric_def A_def)
  have lx: "length x = i" by (simp add: x_def)
  have a: "A ! i ! c = dot (L0 ! c) x" if c: "c < i" for c
  proof -
    have "dot (L0 ! c) (chol_row L0 (A ! i) i @ replicate (n - i) 0) = A ! i ! c"
    proof (rule dot_lower_chol_row [of _ n])
      show "length (L0 ! c) = n" using len0 c by simp
      show "c < i" by (rule c)
      show "i \<le> n" using i by simp
      show "\<forall>t < n. c < t \<longrightarrow> L0 ! c ! t = 0" using up0 c by simp
      show "L0 ! c ! c \<noteq> 0" using pos0 c by fastforce
      show "L0 ! c = L0 ! c" ..
      show "length (replicate (n - i) (0::real)) = n - i" by simp
    qed
    then show ?thesis by (simp add: dot_append_zeros x_def)
  qed
  have b: "A ! r ! c = (\<Sum>t<i. L0 ! r ! t * L0 ! c ! t)" if r: "r < i" and c: "c < i" for r c
  proof -
    have "A ! r ! c = dot (L0 ! r) (L0 ! c)"
    proof (cases "c \<le> r")
      case True
      with prod0 r show ?thesis by simp
    next
      case False
      then have "dot (L0 ! c) (L0 ! r) = A ! c ! r" using prod0 c by simp
      then show ?thesis using symA [of r c] r c i by (simp add: dot_commute)
    qed
    also have "\<dots> = (\<Sum>t<n. L0 ! r ! t * L0 ! c ! t)"
      using len0 r c by (simp add: dot_sum)
    also have "\<dots> = (\<Sum>t<i. L0 ! r ! t * L0 ! c ! t)"
      using up0 r i by (intro sum.mono_neutral_right) auto
    finally show ?thesis .
  qed
  obtain w where lw: "length w = i" and w: "\<forall>k < i. dot (col L0 k) w = x ! k"
  proof -
    define M where "M = \<lparr>nrows = i, ncols = i, rows = map (col L0) [0..<i]\<rparr>"
    define B where "B = \<lparr>nrows = i, ncols = 1, rows = map (\<lambda>k. [x ! k]) [0..<i]\<rparr>"
    have wfM: "wf_matrix M" using lL0 by (simp add: M_def wf_matrix_def col_def)
    have sqM: "nrows M = ncols M" by (simp add: M_def)
    have wfB: "wf_matrix B" by (simp add: B_def wf_matrix_def)
    have nB: "nrows B = nrows M" by (simp add: B_def M_def)
    have full: "full_column_rank M"
      unfolding full_column_rank_def in_kernel_def
    proof (intro allI impI)
      fix u assume u: "length u = ncols M \<and> (\<forall>r \<in> set (rows M). dot r u = 0)"
      then have "\<forall>k < i. dot (col L0 k) u = 0" by (simp add: M_def)
      with inv have "u = replicate i 0"
        using i u by (intro upper_block_kernel_trivial [of "rows a" n i L0]) (simp_all add: M_def)
      then show "u = replicate (ncols M) 0" by (simp add: M_def)
    qed
    from solve_full_rank [OF wfM sqM wfB nB full] obtain X where
      X: "wf_matrix X" "nrows X = nrows M"
         "\<forall>k < nrows M. lincomb (ncols B) (rows M ! k) (rows X) = rows B ! k"
      by metis
    have "length (col (rows X) 0) = i" using X(1,2) by (simp add: col_def wf_matrix_def M_def)
    moreover have "dot (col L0 k) (col (rows X) 0) = x ! k" if k: "k < i" for k
    proof -
      from X(3) k have "lincomb 1 (col L0 k) (rows X) = [x ! k]"
        by (simp add: M_def B_def)
      then show ?thesis by (simp add: lincomb_def)
    qed
    ultimately show thesis using that by blast
  qed
  have K2: "dot (A ! i) w = dot x x"
  proof -
    have "dot (A ! i) w = (\<Sum>c<i. A ! i ! c * w ! c)"
      using lA i lw by (simp add: dot_truncate)
    also have "\<dots> = (\<Sum>c<i. (\<Sum>t<i. L0 ! c ! t * x ! t) * w ! c)"
      using a len0 lx i by (intro sum.cong refl) (simp add: dot_truncate)
    also have "\<dots> = (\<Sum>c<i. \<Sum>t<i. x ! t * (L0 ! c ! t * w ! c))"
      by (intro sum.cong refl) (simp add: sum_distrib_left sum_distrib_right mult_ac)
    also have "\<dots> = (\<Sum>t<i. \<Sum>c<i. x ! t * (L0 ! c ! t * w ! c))"
      by (rule sum.swap)
    also have "\<dots> = (\<Sum>t<i. x ! t * (\<Sum>c<i. L0 ! c ! t * w ! c))"
      by (simp add: sum_distrib_left)
    also have "\<dots> = (\<Sum>t<i. x ! t * dot (col L0 t) w)"
      using lL0 lw by (simp add: dot_sum col_def)
    also have "\<dots> = (\<Sum>t<i. x ! t * x ! t)"
      using w by (intro sum.cong refl) simp
    also have "\<dots> = dot x x" using lx by (simp add: dot_sum)
    finally show ?thesis .
  qed
  have K1: "dot (A ! r) w = A ! r ! i" if r: "r < i" for r
  proof -
    have "dot (A ! r) w = (\<Sum>c<i. A ! r ! c * w ! c)"
      using lA i r lw by (simp add: dot_truncate)
    also have "\<dots> = (\<Sum>c<i. (\<Sum>t<i. L0 ! r ! t * L0 ! c ! t) * w ! c)"
      using b r by (intro sum.cong refl) simp
    also have "\<dots> = (\<Sum>c<i. \<Sum>t<i. L0 ! r ! t * (L0 ! c ! t * w ! c))"
      by (intro sum.cong refl) (simp add: sum_distrib_left sum_distrib_right mult_ac)
    also have "\<dots> = (\<Sum>t<i. \<Sum>c<i. L0 ! r ! t * (L0 ! c ! t * w ! c))"
      by (rule sum.swap)
    also have "\<dots> = (\<Sum>t<i. L0 ! r ! t * (\<Sum>c<i. L0 ! c ! t * w ! c))"
      by (simp add: sum_distrib_left)
    also have "\<dots> = (\<Sum>t<i. L0 ! r ! t * dot (col L0 t) w)"
      using lL0 lw by (simp add: dot_sum col_def)
    also have "\<dots> = (\<Sum>t<i. L0 ! r ! t * x ! t)"
      using w by (intro sum.cong refl) simp
    also have "\<dots> = dot (L0 ! r) x"
      using len0 r lx i by (simp add: dot_truncate)
    also have "\<dots> = A ! i ! r" using a r by simp
    also have "\<dots> = A ! r ! i" using symA [of i r] r i by simp
    finally show ?thesis .
  qed
  define v where "v = map uminus w @ 1 # replicate (n - Suc i) 0"
  have lv: "length v = n" using lw i by (simp add: v_def)
  have "v ! i = 1" using lw by (simp add: v_def nth_append)
  then have nz: "v \<noteq> replicate n 0" using i by (metis nth_replicate zero_neq_one)
  have Av: "matvec A v ! r = A ! r ! i - dot (A ! r) w" if "r < n" for r
    using that lA lw i unfolding v_def by (simp add: dot_probe)
  have lAv: "length (matvec A v) = n" using lA by simp
  have "dot v (matvec A v) = dot (matvec A v) v" by (rule dot_commute)
  also have "\<dots> = matvec A v ! i - dot (matvec A v) w"
    using dot_probe [OF lAv i lw] by (simp only: v_def)
  also have "dot (matvec A v) w = (\<Sum>r<i. matvec A v ! r * w ! r)"
    using lAv lw i by (simp add: dot_truncate)
  also have "\<dots> = 0"
  proof (intro sum.neutral ballI)
    fix r assume "r \<in> {..<i}"
    then have r: "r < i" by simp
    then have "matvec A v ! r = 0" using Av [of r] K1 [OF r] i by simp
    then show "matvec A v ! r * w ! r = 0" by simp
  qed
  also have "matvec A v ! i = A ! i ! i - dot x x" using Av [OF i] K2 by simp
  finally have q: "dot v (matvec (rows a) v) = A ! i ! i - dot x x" by (simp add: A_def)
  from pd lv nz sq have "0 < dot v (matvec (rows a) v)"
    by (simp add: positive_definite_def)
  then show ?thesis by (simp add: q) (simp add: A_def x_def)
qed

lemma potrf_positive_definite:
  assumes wf: "wf_matrix a" and sq: "nrows a = n" "ncols a = n" and sym: "symmetric a" and
    pd: "positive_definite a"
  shows "i \<le> n \<Longrightarrow> \<exists>L. potrf (rows a) n i = Some L"
proof (induction i)
  case 0
  then show ?case by simp
next
  case (Suc i)
  then obtain L0 where L0: "potrf (rows a) n i = Some L0" by auto
  from Suc.prems have i: "i < n" by simp
  then have "chol_inv (rows a) n i L0" using L0 by (intro potrf_inv) simp_all
  from chol_pivot_positive [OF this i wf sq sym pd]
  have "\<not> rows a ! i ! i - dot (chol_row L0 (rows a ! i) i) (chol_row L0 (rows a ! i) i) \<le> 0"
    by (simp only: not_le)
  then have "potrf (rows a) n (Suc i)
      = Some (L0 @ [chol_row L0 (rows a ! i) i
               @ [sqrt (rows a ! i ! i - dot (chol_row L0 (rows a ! i) i) (chol_row L0 (rows a ! i) i))]
               @ replicate (n - Suc i) 0])"
    unfolding potrf.simps L0 Let_def by (simp only: option.case if_False)
  then show ?case by blast
qed

lemma cholesky_positive_definite:
  assumes "wf_matrix a" "nrows a = ncols a" "symmetric a" "positive_definite a"
  obtains Lm where "cholesky a = Inr Lm"
proof -
  have c: "ncols a = nrows a" using assms(2) by (rule sym)
  from potrf_positive_definite [OF assms(1) refl c assms(3,4) le_refl]
  obtain L where "potrf (rows a) (nrows a) (nrows a) = Some L" ..
  then have "cholesky a = Inr \<lparr>nrows = nrows a, ncols = nrows a, rows = L\<rparr>"
    unfolding cholesky_def using c by simp
  then show thesis by (rule that)
qed

subsection \<open>Shape of the samples\<close>

lemma length_concat_uniform:
  "\<forall>r \<in> set xs. length r = m \<Longrightarrow> length (concat xs) = length xs * m"
  by (induction xs) simp_all

lemma length_concat_rows:
  "wf_matrix a \<Longrightarrow> length (concat (rows a)) = nrows a * ncols a"
  using length_concat_uniform [of "rows a" "ncols a"] by (simp add: wf_matrix_def)

lemma wf_add_column:
  "wf_matrix b \<Longrightarrow> length v = nrows b \<Longrightarrow> wf_matrix (add_column v b)"
  "nrows (add_column v b) = nrows b" "ncols (add_column v b) = ncols b"
  by (auto simp: add_column_def wf_matrix_def dest!: set_zip_rightD)

lemma length_setitem_unit_matrix:
  assumes "shape a = [v, p, m]" "length (data a) = v * (p * m)" "i < v"
    "wf_matrix b" "nrows b = p" "ncols b = m"
  shows "length (data (setitem_unit_matrix a i b)) = v * (p * m)"
proof -
  have "Suc i * (p * m) \<le> v * (p * m)" using assms(3) by (intro mult_le_mono1) simp
  then have "i * (p * m) + p * m \<le> v * (p * m)" by simp
  with assms show ?thesis
    by (simp add: setitem_unit_matrix_def length_concat_rows Let_def)
qed

lemma length_getitem_unit_vector:
  assumes "shape a = [v, p]" "length (data a) = v * p" "i < v"
  shows "length (getitem_unit_vector a i) = p"
proof -
  have "Suc i * p \<le> v * p" using assms(3) by (intro mult_le_mono1) simp
  with assms show ?thesis by (simp add: getitem_unit_vector_def)
qed

lemma sample_loop_returns_wf:
  assumes "shape precision = [v, p, p]" "length (data precision) = v * (p * p)"
    "shape mean = [v, p]" "length (data mean) = v * p"
    "\<forall>i \<in> set is. i < v"
    "\<forall>i \<in> set is. \<exists>Lm. cholesky (getitem_unit_matrix precision i) = Inr Lm"
    "shape samples = [v, p, m]" "length (data samples) = v * (p * m)"
  shows "\<exists>s. fst (sample_loop mean precision p m is samples g) = Inr s \<and>
             shape s = [v, p, m] \<and> length (data s) = v * (p * m)"
  using assms(5-8)
proof (induction "is" arbitrary: samples g)
  case Nil
  then show ?case by simp
next
  case (Cons i "is")
  obtain Z g' where Z: "randn p m g = (Z, g')" by (cases "randn p m g")
  have wfZ: "wf_matrix Z" "nrows Z = p" "ncols Z = m"
    using wf_randn [of p m g] dims_randn [of p m g] by (simp_all add: Z)
  have i: "i < v" using Cons.prems(1) by simp
  note U = wf_getitem_unit_matrix [OF assms(1,2) i]
  from Cons.prems(2) obtain Lm where Lm: "cholesky (getitem_unit_matrix precision i) = Inr Lm"
    by auto
  from cholesky_factor_solvable [OF Lm wfZ(1)] wfZ(2,3) U(2)
  obtain S where S: "solve Lm Z = Inr S" "wf_matrix S" "nrows S = p" "ncols S = m"
    by metis
  define samples' where
    "samples' = setitem_unit_matrix samples i (add_column (getitem_unit_vector mean i) S)"
  have lvec: "length (getitem_unit_vector mean i) = nrows S"
    using length_getitem_unit_vector [OF assms(3,4) i] S(3) by simp
  have "wf_matrix (add_column (getitem_unit_vector mean i) S)"
    using S(2) lvec by (rule wf_add_column)
  then have "length (data samples') = v * (p * m)"
    unfolding samples'_def using Cons.prems(3,4) i S(3,4)
    by (intro length_setitem_unit_matrix) (simp_all add: wf_add_column)
  moreover have "shape samples' = [v, p, m]"
    using Cons.prems(3) by (simp add: samples'_def)
  ultimately have "\<exists>s. fst (sample_loop mean precision p m is samples' g') = Inr s \<and>
             shape s = [v, p, m] \<and> length (data s) = v * (p * m)"
    using Cons.prems(1,2) by (intro Cons.IH) simp_all
  then show ?case by (simp add: Z Lm S(1) samples'_def)
qed

lemma as_matrix_unit:
  "shape precision = [p, p] \<Longrightarrow>
     getitem_unit_matrix (precision\<lparr>shape := [1, p, p]\<rparr>) 0 = as_matrix precision"
  by (simp add: getitem_unit_matrix_def as_matrix_def)

text \<open>
  Claim C9, as the code has it: for every single-unit call, with a one-dimensional mean of
  \<open>n_coefs\<close> coefficients and a symmetric positive-definite \<open>n_coefs\<close> by \<open>n_coefs\<close>
  precision, and \<open>n_samples = 1\<close>, \<^verbatim>\<open>sample_coef_posterior\<close> returns \<open>n_coefs\<close>
  numbers; the final squeeze removes every axis of length 1 from the shape
  \<open>(1, n_coefs, 1)\<close>, which leaves the one-dimensional shape \<open>(n_coefs)\<close> when
  \<open>n_coefs \<noteq> 1\<close> and the zero-dimensional shape \<open>()\<close> when \<open>n_coefs = 1\<close>.
\<close>

theorem single_unit_one_sample_shape:
  assumes "shape mean = [n_coefs]" "wf_ndarray mean" and
    "shape precision = [n_coefs, n_coefs]" "wf_ndarray precision" and
    "symmetric (as_matrix precision)" "positive_definite (as_matrix precision)"
  shows "\<exists>d. length d = n_coefs \<and>
           fst (sample_coef_posterior mean precision 1 g)
             = Inr \<lparr>shape = (if n_coefs = 1 then [] else [n_coefs]), data = d\<rparr>"
proof -
  define P where "P = precision\<lparr>shape := [1, n_coefs, n_coefs]\<rparr>"
  have m2: "shape (atleast_2d mean) = [1, n_coefs]" "data (atleast_2d mean) = data mean"
    using assms(1) by (simp_all add: atleast_2d_def)
  have lm: "length (data mean) = n_coefs" using assms(1,2) by (simp add: wf_ndarray_def)
  have lp: "length (data precision) = n_coefs * n_coefs"
    using assms(3,4) by (simp add: wf_ndarray_def)
  have rs: "reshape precision [1, n_coefs, n_coefs] = Inr P"
    using lp by (simp add: reshape_def P_def)
  have P: "shape P = [1, n_coefs, n_coefs]" "length (data P) = 1 * (n_coefs * n_coefs)"
    using lp by (simp_all add: P_def)
  have U: "getitem_unit_matrix P 0 = as_matrix precision"
    unfolding P_def using assms(3) by (rule as_matrix_unit)
  note W = wf_getitem_unit_matrix [OF P, of 0]
  have sq: "nrows (as_matrix precision) = ncols (as_matrix precision)"
    using W(2,3) by (simp add: U)
  have wfU: "wf_matrix (as_matrix precision)" using W(1) by (simp add: U)
  obtain Lm where "cholesky (as_matrix precision) = Inr Lm"
    using wfU sq assms(5,6) by (rule cholesky_positive_definite)
  then have chol: "\<forall>i \<in> set [0..<1]. \<exists>Lm. cholesky (getitem_unit_matrix P i) = Inr Lm"
    by (simp add: U)
  have "\<exists>s. fst (sample_loop (atleast_2d mean) P n_coefs 1 [0..<1] (zeros [1, n_coefs, 1]) g) = Inr s \<and>
             shape s = [1, n_coefs, 1] \<and> length (data s) = 1 * (n_coefs * 1)"
    using P m2 lm chol
    by (intro sample_loop_returns_wf [of P 1 n_coefs]) (simp_all add: zeros_def)
  then obtain s where
    s: "fst (sample_loop (atleast_2d mean) P n_coefs 1 [0..<1] (zeros [1, n_coefs, 1]) g) = Inr s"
       "shape s = [1, n_coefs, 1]" "length (data s) = n_coefs"
    by auto
  have "fst (sample_coef_posterior mean precision 1 g)
          = map_sum id squeeze
              (fst (sample_loop (atleast_2d mean) P n_coefs (nat 1) [0..<1]
                     (zeros [1, n_coefs, nat 1]) g))"
    using m2(1) rs by (rule fst_sample_coef_posterior) simp
  also have "nat 1 = 1" by simp
  finally have "fst (sample_coef_posterior mean precision 1 g) = map_sum id squeeze (Inr s)"
    by (simp only: s(1))
  then have "fst (sample_coef_posterior mean precision 1 g) = Inr (squeeze s)"
    by simp
  moreover have "squeeze s = \<lparr>shape = (if n_coefs = 1 then [] else [n_coefs]), data = data s\<rparr>"
    using s(2) by (simp add: squeeze_def)
  ultimately show ?thesis using s(3) by auto
qed

lemma positive_definite_identity_2:
  "positive_definite \<lparr>nrows = 2, ncols = 2, rows = [[1, 0], [0, 1]]\<rparr>"
  unfolding positive_definite_def
proof (intro allI impI)
  fix v :: "real list"
  assume "length v = nrows \<lparr>nrows = 2, ncols = 2, rows = [[1, 0], [0, 1]]\<rparr>"
    and nz: "v \<noteq> replicate (nrows \<lparr>nrows = 2, ncols = 2, rows = [[1, 0], [0, 1]]\<rparr>) 0"
  then obtain a b where v: "v = [a, b]"
    by (cases v; cases "tl v") auto
  with nz have "a \<noteq> 0 \<or> b \<noteq> 0" by (auto simp: numeral_2_eq_2)
  then have "0 < a * a + b * b"
    by (metis add_pos_nonneg add_nonneg_pos zero_le_square zero_less_mult_iff not_less_iff_gr_or_eq)
  then show "0 < dot v (matvec (rows \<lparr>nrows = 2, ncols = 2, rows = [[1, 0], [0, 1]]\<rparr>) v)"
    by (simp add: v matvec_def)
qed

theorem single_unit_one_sample_shape_witness:
  "shape zero_mean_2 = [2] \<and> wf_ndarray zero_mean_2 \<and>
   shape identity_precision_2 = [2, 2] \<and> wf_ndarray identity_precision_2 \<and>
   symmetric (as_matrix identity_precision_2) \<and>
   positive_definite (as_matrix identity_precision_2) \<and>
   (\<exists>d. length d = 2 \<and>
      fst (sample_coef_posterior zero_mean_2 identity_precision_2 1 zero_rng)
        = Inr \<lparr>shape = [2], data = d\<rparr>)"
proof -
  have M: "as_matrix identity_precision_2 = \<lparr>nrows = 2, ncols = 2, rows = [[1, 0], [0, 1]]\<rparr>"
    by (simp add: as_matrix_def identity_precision_2_def chunks_def numeral_2_eq_2)
  have 1: "shape zero_mean_2 = [2]" "wf_ndarray zero_mean_2"
    by (simp_all add: zero_mean_2_def wf_ndarray_def)
  have 2: "shape identity_precision_2 = [2, 2]" "wf_ndarray identity_precision_2"
    by (simp_all add: identity_precision_2_def wf_ndarray_def)
  have 3: "symmetric (as_matrix identity_precision_2)"
    unfolding M by (simp add: symmetric_def numeral_2_eq_2 less_Suc_eq)
  have 4: "positive_definite (as_matrix identity_precision_2)"
    unfolding M by (rule positive_definite_identity_2)
  from single_unit_one_sample_shape [OF 1 2 3 4, of zero_rng] 1 2 3 4
  show ?thesis by simp
qed

text \<open>
  Claim C9 fails for a single coefficient: with the mean \<open>[0]\<close>, the precision \<open>[[1]]\<close>
  and one sample the result is a zero-dimensional array, not a one-dimensional array of
  length 1.
\<close>

theorem single_coefficient_one_sample_scalar:
  "fst (sample_coef_posterior mean_1 precision_1 1 zero_rng) = Inr \<lparr>shape = [], data = [0]\<rparr>"
  by (simp add: np_defs mean_1_def precision_1_def zero_rng_def Let_def)

subsection \<open>A batch of one unit\<close>

lemma squeeze_batch_of_one [simp]: "squeeze (batch_of_one a) = squeeze a"
  by (simp add: squeeze_def batch_of_one_def)

lemma shape_batch_of_one [simp]: "shape (batch_of_one a) = 1 # shape a"
  by (simp add: batch_of_one_def)

lemma data_batch_of_one [simp]: "data (batch_of_one a) = data a"
  by (simp add: batch_of_one_def)

lemma squeeze_result_add_batch_axis [simp]:
  "squeeze_result (add_batch_axis flag r) = squeeze_result r"
  by (simp add: squeeze_result_def add_batch_axis_def)

lemma einsum_ij_j_i_batch_of_one:
  "shape y = [n] \<Longrightarrow>
     einsum_ij_j_i a (batch_of_one y) = map_sum id batch_of_one (einsum_ij_j_i a y)"
  by (simp add: einsum_ij_j_i_def batch_of_one_def Let_def)

lemma einsum_ij_j_i_vector_shape:
  assumes "einsum_ij_j_i a y = Inr m" "shape y = [n]"
  shows "shape m = [nrows a]" "length (data m) = length (rows a)"
  using assms by (auto simp: einsum_ij_j_i_def Let_def chunks_Suc split: if_splits)

lemma broadcast_shapes_vectors:
  "broadcast_shapes [Suc 0, k] [Suc 0, l] = map_option ((#) (Suc 0)) (broadcast_shapes [k] [l])"
  by (simp add: broadcast_shapes_def)

lemma broadcast_shapes_vectors_1d:
  "broadcast_shapes [k] [l] = Some t \<Longrightarrow> \<exists>c. t = [c]"
  by (auto simp: broadcast_shapes_def split: if_splits)

lemma broadcast_to_batch_of_one:
  "shape a = [k] \<Longrightarrow> length (data a) = k \<Longrightarrow>
     broadcast_to (batch_of_one a) [Suc 0, c] = broadcast_to a [c]"
  by (simp add: broadcast_to_def chunks_Suc)

lemma broadcast_op_batch_of_one:
  assumes "shape a = [k]" "length (data a) = k" "shape b = [l]" "length (data b) = l"
  shows "broadcast_op f (batch_of_one a) (batch_of_one b)
           = map_sum id batch_of_one (broadcast_op f a b)"
proof (cases "broadcast_shapes [k] [l]")
  case None
  with assms show ?thesis by (simp add: broadcast_op_def broadcast_shapes_vectors)
next
  case (Some t)
  then obtain c where "t = [c]" using broadcast_shapes_vectors_1d by blast
  with Some assms show ?thesis
    by (simp add: broadcast_op_def broadcast_shapes_vectors broadcast_to_batch_of_one)
qed

lemma broadcast_op_vectors_shape:
  "broadcast_op f a b = Inr r \<Longrightarrow> shape a = [k] \<Longrightarrow> shape b = [l] \<Longrightarrow> \<exists>c. shape r = [c]"
  by (auto simp: broadcast_op_def split: option.splits dest: broadcast_shapes_vectors_1d)

lemma sum_sq_last_axis_batch_of_one:
  "shape r = [c] \<Longrightarrow> sum_sq_last_axis (batch_of_one r) = batch_of_one (sum_sq_last_axis r)"
  by (simp add: sum_sq_last_axis_def batch_of_one_def)

lemma shape_sum_sq_last_axis_vector: "shape r = [c] \<Longrightarrow> shape (sum_sq_last_axis r) = []"
  by (simp add: sum_sq_last_axis_def)

lemma broadcast_op_scalar_batch_of_one:
  "shape u = [p, q] \<Longrightarrow> shape v = [] \<Longrightarrow>
     broadcast_op f u (batch_of_one v) = broadcast_op f u v"
  by (simp add: broadcast_op_def broadcast_shapes_def broadcast_to_def batch_of_one_def
        split: option.splits)

lemma atleast_2d_batch_of_one: "shape m = [p] \<Longrightarrow> atleast_2d (batch_of_one m) = atleast_2d m"
  by (simp add: atleast_2d_def batch_of_one_def)

lemma pls_batch_of_one:
  assumes y: "shape y = [n]" "wf_ndarray y" and wf: "wf_matrix design_matrix"
  shows "probabilistic_least_squares design_matrix (batch_of_one y) regularization_matrix flag
           = map_sum id (add_batch_axis flag)
               (probabilistic_least_squares design_matrix y regularization_matrix flag)"
proof -
  define U where "U = (case regularization_matrix of
          None \<Rightarrow> Inr (einsum_ki_kj_ij design_matrix design_matrix)
        | Some R \<Rightarrow> madd (einsum_ki_kj_ij design_matrix design_matrix) R)"
  have ly: "length (data y) = n" using y by (simp add: wf_ndarray_def)
  show ?thesis
  proof (cases U)
    case (Inl e)
    then show ?thesis
      by (simp add: probabilistic_least_squares_def and_then_def U_def [symmetric])
  next
    case U': (Inr unscaled)
    show ?thesis
    proof (cases "solve unscaled (swapaxes design_matrix)")
      case (Inl e)
      then show ?thesis
        by (simp add: probabilistic_least_squares_def and_then_def U_def [symmetric] U')
    next
      case X: (Inr pseudoInv)
      show ?thesis
      proof (cases "einsum_ij_j_i pseudoInv y")
        case (Inl e)
        then show ?thesis
          using y(1)
          by (simp add: probabilistic_least_squares_def and_then_def U_def [symmetric] U' X
                einsum_ij_j_i_batch_of_one)
      next
        case M: (Inr mean)
        have sm: "shape mean = [nrows pseudoInv]"
          using M y(1) by (rule einsum_ij_j_i_vector_shape)
        show ?thesis
        proof (cases "einsum_ij_j_i design_matrix mean")
          case (Inl e)
          then show ?thesis
            using y(1) sm
            by (simp add: probabilistic_least_squares_def and_then_def U_def [symmetric] U' X M
                  einsum_ij_j_i_batch_of_one)
        next
          case F: (Inr fitted)
          have sf: "shape fitted = [nrows design_matrix]"
            "length (data fitted) = nrows design_matrix"
            using einsum_ij_j_i_vector_shape [OF F sm] wf by (simp_all add: wf_matrix_def)
          have R: "broadcast_op (-) (batch_of_one y) (batch_of_one fitted)
                     = map_sum id batch_of_one (broadcast_op (-) y fitted)"
            using y(1) ly sf by (rule broadcast_op_batch_of_one)
          show ?thesis
          proof (cases "broadcast_op (-) y fitted")
            case (Inl e)
            then show ?thesis
              using y(1) sm
              by (simp add: probabilistic_least_squares_def and_then_def U_def [symmetric] U' X M F
                    einsum_ij_j_i_batch_of_one R)
          next
            case Res: (Inr residuals)
            obtain c where sr: "shape residuals = [c]"
              using broadcast_op_vectors_shape [OF Res y(1) sf(1)] by blast
            define rv where "rv = \<lparr>shape = shape (sum_sq_last_axis residuals),
                data = map (\<lambda>s. fdiv s (sum_sq_matrix (msub (eye (ncols (einsum_ik_kj_ij design_matrix pseudoInv)))
                                                     (einsum_ik_kj_ij design_matrix pseudoInv))))
                         (data (sum_sq_last_axis residuals))\<rparr>"
            have srv: "shape rv = []" using sr by (simp add: rv_def shape_sum_sq_last_axis_vector)
            have rvb: "\<lparr>shape = shape (sum_sq_last_axis (batch_of_one residuals)),
                data = map (\<lambda>s. fdiv s (sum_sq_matrix (msub (eye (ncols (einsum_ik_kj_ij design_matrix pseudoInv)))
                                                     (einsum_ik_kj_ij design_matrix pseudoInv))))
                         (data (sum_sq_last_axis (batch_of_one residuals)))\<rparr> = batch_of_one rv"
              using sr by (simp add: sum_sq_last_axis_batch_of_one rv_def)
            have D: "broadcast_op fdivv (as_ndarray unscaled) (batch_of_one rv)
                       = broadcast_op fdivv (as_ndarray unscaled) rv"
              using _ srv by (rule broadcast_op_scalar_batch_of_one) (simp add: as_ndarray_def)
            have A: "atleast_2d (batch_of_one mean) = atleast_2d mean"
              using sm by (rule atleast_2d_batch_of_one)
            have L: "probabilistic_least_squares design_matrix (batch_of_one y) regularization_matrix flag
                = (if \<not> flag then
                     Inr \<lparr>coef_posterior_mean = batch_of_one mean,
                          residual_variance = batch_of_one rv,
                          coef_posterior_precision = None\<rparr>
                   else
                     (case shape (atleast_2d mean) of
                        [n_voxels, n_coefs] \<Rightarrow>
                          and_then (broadcast_op fdivv (as_ndarray unscaled) rv) (\<lambda>p.
                          and_then (reshape p [n_voxels, n_coefs, n_coefs]) (\<lambda>p.
                          Inr \<lparr>coef_posterior_mean = squeeze (atleast_2d mean),
                               residual_variance = batch_of_one rv,
                               coef_posterior_precision = Some (squeeze p)\<rparr>))
                      | _ \<Rightarrow> Inl ValueError))"
              using y(1) sm
              by (simp add: probabilistic_least_squares_def U_def [symmetric] U' X M F
                    einsum_ij_j_i_batch_of_one R Res Let_def rvb D A and_then_def
                  split: list.splits sum.splits)
            have Rr: "probabilistic_least_squares design_matrix y regularization_matrix flag
                = (if \<not> flag then
                     Inr \<lparr>coef_posterior_mean = mean,
                          residual_variance = rv,
                          coef_posterior_precision = None\<rparr>
                   else
                     (case shape (atleast_2d mean) of
                        [n_voxels, n_coefs] \<Rightarrow>
                          and_then (broadcast_op fdivv (as_ndarray unscaled) rv) (\<lambda>p.
                          and_then (reshape p [n_voxels, n_coefs, n_coefs]) (\<lambda>p.
                          Inr \<lparr>coef_posterior_mean = squeeze (atleast_2d mean),
                               residual_variance = rv,
                               coef_posterior_precision = Some (squeeze p)\<rparr>))
                      | _ \<Rightarrow> Inl ValueError))"
              unfolding rv_def
              by (simp add: probabilistic_least_squares_def U_def [symmetric] U' X M F
                    Res Let_def and_then_def)
            show ?thesis
              unfolding L Rr
              by (auto simp: add_batch_axis_def and_then_def split: list.splits sum.splits)
          qed
        qed
      qed
    qed
  qed
qed

lemma reshape_batch_of_one: "reshape (batch_of_one a) s = reshape a s"
  by (simp add: reshape_def batch_of_one_def)

lemma sample_coef_posterior_batch_of_one:
  assumes "shape mean = [p]"
  shows "sample_coef_posterior (batch_of_one mean) (batch_of_one precision) n_samples g
           = sample_coef_posterior mean precision n_samples g"
  unfolding sample_coef_posterior_def reshape_batch_of_one atleast_2d_batch_of_one [OF assms] ..

text \<open>
  Claim C8: for every design matrix, every observation vector \<open>y\<close> and either value of
  the regularization and of \<^verbatim>\<open>return_posterior_precision\<close>, the call with \<open>y\<close> stacked as
  a batch of one returns what the single-unit call returns, with a leading axis of
  length 1 on the residual variance and, when the precision is not requested, on the
  mean; with the precision requested the mean and the precision are the very same
  arrays. So both calls fail alike or return outputs that are equal after squeezing.
  \<^verbatim>\<open>sample_coef_posterior\<close> called on a mean and a precision with a leading axis of
  length 1 returns exactly what it returns on the single-unit arrays.
\<close>

theorem batch_of_one_round_trip:
  assumes "shape y = [n]" "wf_ndarray y" "wf_matrix design_matrix" "shape mean = [p]"
  shows
    "probabilistic_least_squares design_matrix (batch_of_one y) regularization_matrix flag
       = map_sum id (add_batch_axis flag)
           (probabilistic_least_squares design_matrix y regularization_matrix flag) \<and>
     map_sum id squeeze_result
       (probabilistic_least_squares design_matrix (batch_of_one y) regularization_matrix flag)
       = map_sum id squeeze_result
           (probabilistic_least_squares design_matrix y regularization_matrix flag) \<and>
     sample_coef_posterior (batch_of_one mean) (batch_of_one precision) n_samples g
       = sample_coef_posterior mean precision n_samples g"
proof -
  have 1: "probabilistic_least_squares design_matrix (batch_of_one y) regularization_matrix flag
       = map_sum id (add_batch_axis flag)
           (probabilistic_least_squares design_matrix y regularization_matrix flag)"
    using assms(1-3) by (rule pls_batch_of_one)
  have 2: "map_sum id squeeze_result
       (probabilistic_least_squares design_matrix (batch_of_one y) regularization_matrix flag)
       = map_sum id squeeze_result
           (probabilistic_least_squares design_matrix y regularization_matrix flag)"
    unfolding 1
    by (cases "probabilistic_least_squares design_matrix y regularization_matrix flag") simp_all
  have 3: "sample_coef_posterior (batch_of_one mean) (batch_of_one precision) n_samples g
       = sample_coef_posterior mean precision n_samples g"
    using assms(4) by (rule sample_coef_posterior_batch_of_one)
  from 1 2 3 show ?thesis by (intro conjI)
qed

theorem batch_of_one_round_trip_witness:
  "shape y_136 = [3] \<and> wf_ndarray y_136 \<and> wf_matrix design_3x2 \<and> shape zero_mean_2 = [2] \<and>
   probabilistic_least_squares design_3x2 (batch_of_one y_136) None True
     = map_sum id (add_batch_axis True) (probabilistic_least_squares design_3x2 y_136 None True) \<and>
   map_sum id squeeze_result (probabilistic_least_squares design_3x2 (batch_of_one y_136) None True)
     = map_sum id squeeze_result (probabilistic_least_squares design_3x2 y_136 None True) \<and>
   sample_coef_posterior (batch_of_one zero_mean_2) (batch_of_one identity_precision_2) 1 zero_rng
     = sample_coef_posterior zero_mean_2 identity_precision_2 1 zero_rng"
proof -
  have 1: "shape y_136 = [3]" "wf_ndarray y_136"
    by (simp_all add: y_136_def wf_ndarray_def)
  have 2: "wf_matrix design_3x2" by (simp add: wf_matrix_def design_3x2_def)
  have 3: "shape zero_mean_2 = [2]" by (simp add: zero_mean_2_def)
  from batch_of_one_round_trip [OF 1 2 3, of None True identity_precision_2 1 zero_rng] 1 2 3
  show ?thesis by blast
qed

subsection \<open>Arguments are left unchanged\<close>

lemma read_array_update_other:
  "buf r \<noteq> b \<Longrightarrow> read_array (h[b := d]) r = read_array h r"
  by (simp add: read_array_def)

lemma read_array_update_same:
  "buf r < length h \<Longrightarrow> read_array (h[buf r := d]) r = (read_array h r)\<lparr>data := d\<rparr>"
  by (simp add: read_array_def)

lemma sample_loop_heap_frame:
  assumes "buf samples < length h" "buf mean \<noteq> buf samples" "buf precision \<noteq> buf samples"
    "sample_loop_heap mean precision p m is samples h g = (res, h', g')"
  shows "length h' = length h \<and> (\<forall>a. a \<noteq> buf samples \<longrightarrow> h' ! a = h ! a) \<and>
         sample_loop (read_array h mean) (read_array h precision) p m is (read_array h samples) g
           = (read_result h' res, g')"
  using assms(1,4)
proof (induction "is" arbitrary: h g)
  case Nil
  then show ?case by (auto simp: read_result_def)
next
  case (Cons i "is")
  obtain Z g1 where Z: "randn p m g = (Z, g1)" by (cases "randn p m g")
  show ?case
  proof (cases "cholesky (getitem_unit_matrix (read_array h precision) i)")
    case (Inl e)
    with Cons.prems show ?thesis by (auto simp: Z read_result_def)
  next
    case L: (Inr L)
    show ?thesis
    proof (cases "solve L Z")
      case (Inl e)
      with Cons.prems L show ?thesis by (auto simp: Z read_result_def)
    next
      case S: (Inr S)
      define blk where "blk = add_column (getitem_unit_vector (read_array h mean) i) S"
      define h1 where "h1 = setitem_unit_matrix_heap h samples i blk"
      have l1: "length h1 = length h" by (simp add: h1_def setitem_unit_matrix_heap_def)
      have o1: "\<forall>a. a \<noteq> buf samples \<longrightarrow> h1 ! a = h ! a"
        by (simp add: h1_def setitem_unit_matrix_heap_def)
      have rm: "read_array h1 mean = read_array h mean"
        unfolding h1_def setitem_unit_matrix_heap_def using assms(2)
        by (rule read_array_update_other)
      have rp: "read_array h1 precision = read_array h precision"
        unfolding h1_def setitem_unit_matrix_heap_def using assms(3)
        by (rule read_array_update_other)
      have rs: "read_array h1 samples = setitem_unit_matrix (read_array h samples) i blk"
        unfolding h1_def setitem_unit_matrix_heap_def
        using Cons.prems(1)
        by (simp add: read_array_update_same)
      from Cons.prems(2) have "sample_loop_heap mean precision p m is samples h1 g1 = (res, h', g')"
        by (simp add: Z L S h1_def blk_def)
      with Cons.IH [of h1 g1] Cons.prems(1) l1
      have IH: "length h' = length h1" "\<forall>a. a \<noteq> buf samples \<longrightarrow> h' ! a = h1 ! a"
        "sample_loop (read_array h1 mean) (read_array h1 precision) p m is (read_array h1 samples) g1
           = (read_result h' res, g')"
        by auto
      have "sample_loop (read_array h mean) (read_array h precision) p m (i # is) (read_array h samples) g
           = sample_loop (read_array h mean) (read_array h precision) p m is
               (setitem_unit_matrix (read_array h samples) i blk) g1"
        by (simp add: Z L S blk_def)
      with IH(3) have "sample_loop (read_array h mean) (read_array h precision) p m (i # is) (read_array h samples) g
           = (read_result h' res, g')"
        by (simp add: rm rp rs)
      with IH(1,2) l1 o1 show ?thesis by simp
    qed
  qed
qed

lemma read_array_append:
  "buf r < length h \<Longrightarrow> read_array (h @ hs) r = read_array h r"
  by (simp add: read_array_def nth_append)

text \<open>
  Claim C10. Both functions leave their argument arrays unchanged. For every store and
  every mean and precision allocated in it (they may share a buffer),
  \<^verbatim>\<open>sample_coef_posterior\<close> returns a store whose buffers at the addresses of the
  initial store are the initial ones: it only adds the buffer of \<^verbatim>\<open>samples\<close> and writes
  there, and its result and generator state are those of the function on values, on
  success and on failure alike. \<^verbatim>\<open>probabilistic_least_squares\<close> returns the store it
  received, with the result of the function on the values read from it.
\<close>

theorem inputs_unchanged:
  assumes "buf mean < length h" "buf precision < length h"
  shows
    "take (length h) (fst (snd (sample_coef_posterior_heap h mean precision n_samples g))) = h \<and>
     (fst (sample_coef_posterior_heap h mean precision n_samples g),
      snd (snd (sample_coef_posterior_heap h mean precision n_samples g)))
       = sample_coef_posterior (read_array h mean) (read_array h precision) n_samples g \<and>
     snd (probabilistic_least_squares_heap h design_matrix y regularization_matrix flag) = h \<and>
     fst (probabilistic_least_squares_heap h design_matrix y regularization_matrix flag)
       = probabilistic_least_squares (as_matrix (read_array h design_matrix)) (read_array h y)
           (map_option (\<lambda>r. as_matrix (read_array h r)) regularization_matrix) flag"
proof -
  define mean2 where "mean2 = mean\<lparr>shp := shape (atleast_2d (read_array h mean))\<rparr>"
  have rm2: "read_array hh mean2 = atleast_2d (read_array hh mean)" if "hh ! buf mean = h ! buf mean" for hh
    using that by (simp add: mean2_def read_array_def atleast_2d_def split: list.splits)
  have sm2: "shp mean2 = shape (atleast_2d (read_array h mean))" by (simp add: mean2_def)
  have bm2: "buf mean2 = buf mean" by (simp add: mean2_def)
  have sampler:
    "take (length h) (fst (snd (sample_coef_posterior_heap h mean precision n_samples g))) = h \<and>
     (fst (sample_coef_posterior_heap h mean precision n_samples g),
      snd (snd (sample_coef_posterior_heap h mean precision n_samples g)))
       = sample_coef_posterior (read_array h mean) (read_array h precision) n_samples g"
  proof (cases "\<exists>v p. shape (atleast_2d (read_array h mean)) = [v, p]")
    case False
    then show ?thesis
      by (auto simp: sample_coef_posterior_heap_def sample_coef_posterior_def Let_def
            split: list.splits)
  next
    case True
    then obtain v p where vp: "shape (atleast_2d (read_array h mean)) = [v, p]" by blast
    show ?thesis
    proof (cases "reshape (read_array h precision) [v, p, p]")
      case (Inl e)
      with vp show ?thesis
        by (simp add: sample_coef_posterior_heap_def sample_coef_posterior_def Let_def)
    next
      case P: (Inr P)
      show ?thesis
      proof (cases "n_samples < 0")
        case True
        with vp P show ?thesis
          by (simp add: sample_coef_posterior_heap_def sample_coef_posterior_def Let_def)
      next
        case False
        define prec3 where "prec3 = precision\<lparr>shp := [v, p, p]\<rparr>"
        define h1 where "h1 = h @ [replicate (prod_list [v, p, nat n_samples]) (0::real)]"
        define samples where "samples = \<lparr>buf = length h, shp = [v, p, nat n_samples]\<rparr>"
        obtain res h2 g2 where
          loop: "sample_loop_heap mean2 prec3 p (nat n_samples) [0..<v] samples h1 g = (res, h2, g2)"
          by (metis prod_cases3)
        have "buf samples < length h1" "buf mean2 \<noteq> buf samples" "buf prec3 \<noteq> buf samples"
          using assms by (simp_all add: samples_def h1_def mean2_def prec3_def)
        from sample_loop_heap_frame [OF this loop]
        have fr: "length h2 = length h1" "\<forall>a. a \<noteq> buf samples \<longrightarrow> h2 ! a = h1 ! a" and
          pure: "sample_loop (read_array h1 mean2) (read_array h1 prec3) p (nat n_samples) [0..<v]
                   (read_array h1 samples) g = (read_result h2 res, g2)"
          by auto
        have "read_array h1 mean2 = atleast_2d (read_array h1 mean)"
          using assms(1) by (intro rm2) (simp add: h1_def nth_append)
        then have r1: "read_array h1 mean2 = atleast_2d (read_array h mean)"
          using assms(1) by (simp add: h1_def read_array_append)
        have r2: "read_array h1 prec3 = P"
          using P assms(2) by (auto simp: prec3_def read_array_def reshape_def h1_def nth_append
              split: if_splits)
        have r3: "read_array h1 samples = zeros [v, p, nat n_samples]"
          by (simp add: read_array_def samples_def h1_def zeros_def)
        have "take (length h) h2 = h"
        proof (rule nth_equalityI)
          show "length (take (length h) h2) = length h" using fr(1) by (simp add: h1_def)
          fix a assume "a < length (take (length h) h2)"
          then have a: "a < length h" by simp
          then have "h2 ! a = h1 ! a" using fr(2) by (simp add: samples_def)
          with a show "take (length h) h2 ! a = h ! a" by (simp add: h1_def nth_append)
        qed
        moreover have "sample_coef_posterior_heap h mean precision n_samples g
            = (case res of Inl e \<Rightarrow> (Inl e, h2, g2)
               | Inr s \<Rightarrow> (Inr (squeeze (read_array h2 s)), h2, g2))"
        proof -
          have m: "mean2 = mean\<lparr>shp := [v, p]\<rparr>" by (simp add: mean2_def vp)
          have hh: "h1 = h @ [replicate (v * (p * nat n_samples)) 0]" by (simp add: h1_def)
          have loop': "sample_loop_heap (mean\<lparr>shp := [v, p]\<rparr>) prec3 p (nat n_samples) [0..<v]
              samples (h @ [replicate (v * (p * nat n_samples)) 0]) g = (res, h2, g2)"
            using loop by (simp only: m hh)
          show ?thesis
            using vp P False loop'
            by (simp add: sample_coef_posterior_heap_def Let_def np_zeros_def
                  prec3_def [symmetric] samples_def [symmetric]
                split: sum.splits)
        qed
        moreover have "sample_coef_posterior (read_array h mean) (read_array h precision) n_samples g
            = (case read_result h2 res of Inl e \<Rightarrow> (Inl e, g2)
               | Inr s \<Rightarrow> (Inr (squeeze s), g2))"
          using vp P False pure
          by (simp add: sample_coef_posterior_def Let_def r1 r2 r3 split: sum.splits)
        ultimately show ?thesis
          by (cases res) (simp_all add: read_result_def)
      qed
    qed
  qed
  then show ?thesis by (simp add: probabilistic_least_squares_heap_def)
qed

theorem inputs_unchanged_witness:
  "buf \<lparr>buf = 0, shp = [2]\<rparr> < length caller_heap \<and>
   buf \<lparr>buf = 1, shp = [2, 2]\<rparr> < length caller_heap \<and>
   take (length caller_heap)
     (fst (snd (sample_coef_posterior_heap caller_heap \<lparr>buf = 0, shp = [2]\<rparr>
                  \<lparr>buf = 1, shp = [2, 2]\<rparr> 1 zero_rng))) = caller_heap \<and>
   snd (probabilistic_least_squares_heap caller_heap \<lparr>buf = 1, shp = [2, 2]\<rparr>
          \<lparr>buf = 0, shp = [2]\<rparr> None True) = caller_heap"
proof -
  have 1: "buf \<lparr>buf = 0, shp = [2]\<rparr> < length caller_heap"
    and 2: "buf \<lparr>buf = 1, shp = [2, 2]\<rparr> < length caller_heap"
    by (simp_all add: caller_heap_def)
  from inputs_unchanged [OF 1 2, of 1 zero_rng "\<lparr>buf = 1, shp = [2, 2]\<rparr>"
      "\<lparr>buf = 0, shp = [2]\<rparr>" None True] 1 2
  show ?thesis by blast
qed

end
